theory Spec2Isabelle
  imports Complex_Main "HOL-Library.AList"
begin

section \<open>Conventions of the embedding\<close>

text \<open>
  The replay engine of MintEDGE's DAG module is embedded function by function.
  Python floats are read as real numbers (no rounding, no infinities apart from the
  one edge weight that the source sets to infinity on purpose); Python strings are
  \<open>string\<close>; a Python dict is an association list in insertion order, read with
  \<open>map_of\<close> and written with \<open>AList.update\<close> (which overwrites in place or
  appends, as a dict does); every \<open>raise\<close> is a value \<open>Inl e\<close> of the sum type
  \<open>error + 'a\<close>. All the exceptions the modelled code raises are Python
  \<open>ValueError\<close>s; the constructors of \<open>error\<close> distinguish the places that raise.
\<close>

datatype error =
    InvalidBandwidth      \<comment> \<open>NetworkLink.get_transfer_time: bandwidth \<open>\<le>\<close> 0\<close>
  | InvalidCapacity       \<comment> \<open>ComputeNode.get_compute_time: capacity \<open>\<le>\<close> 0\<close>
  | UnknownNode           \<comment> \<open>DAGTopology.get_compute_time: node id not in nodes\<close>
  | NoPathExists          \<comment> \<open>DAGTopology.get_path: nx.NetworkXNoPath caught\<close>
  | NodeNotFoundError     \<comment> \<open>DAGTopology.get_path: nx.NodeNotFound caught\<close>
  | NoPathLinks           \<comment> \<open>DAGTopology.get_transfer_time: empty link list\<close>
  | NoTaskDefinition      \<comment> \<open>DAGScheduler._execute_task: no definition for the base id\<close>
  | NegativeDelay         \<comment> \<open>simpy Timeout with a negative delay\<close>
  | EmptySequence         \<comment> \<open>max() of an empty sequence in DAGScheduler.run\<close>

section \<open>models.py\<close>

record TaskDefinition =
  td_task_id :: string
  compute_cost :: real
  successors :: "string list"
  predecessors :: "string list"
  edge_weights :: "(string \<times> real) list"

definition get_data_to_successor :: "TaskDefinition \<Rightarrow> string \<Rightarrow> real" where
  "get_data_to_successor td successor_id =
     (case map_of (edge_weights td) successor_id of Some w \<Rightarrow> w | None \<Rightarrow> 0)"

record ScheduledTask =
  task_id :: string
  node_id :: string
  scheduled_start :: real
  scheduled_end :: real
  scheduled_duration :: real
  actual_start :: "real option"
  actual_end :: "real option"
  uplink_time :: real
  compute_time :: real
  downlink_time :: real

definition actual_duration :: "ScheduledTask \<Rightarrow> real option" where
  "actual_duration t =
     (case (actual_start t, actual_end t) of
        (Some s, Some e) \<Rightarrow> Some (e - s)
      | _ \<Rightarrow> None)"

record ComputeNode =
  cn_node_id :: string
  speed_multiplier :: real
  node_type :: string

definition get_capacity :: "ComputeNode \<Rightarrow> real \<Rightarrow> real" where
  "get_capacity n base_speed = base_speed * speed_multiplier n"

definition node_get_compute_time :: "ComputeNode \<Rightarrow> real \<Rightarrow> real \<Rightarrow> error + real" where
  "node_get_compute_time n cost base_speed =
     (let capacity = get_capacity n base_speed
      in if capacity \<le> 0 then Inl InvalidCapacity else Inr (cost / capacity))"

record NetworkLink =
  source :: string
  target :: string
  bandwidth :: real
  link_type :: string

text \<open>
  \<open>NetworkLink.get_transfer_time\<close>: the bandwidth is taken in Mbps and converted to
  bytes per time unit (\<open>bandwidth * 1e6 / 8\<close>) before the division.
\<close>

definition link_get_transfer_time :: "NetworkLink \<Rightarrow> real \<Rightarrow> error + real" where
  "link_get_transfer_time l data_size_bytes =
     (if bandwidth l \<le> 0 then Inl InvalidBandwidth
      else (let bytes_per_second = bandwidth l * 1000000 / 8
            in Inr (data_size_bytes / bytes_per_second)))"

section \<open>topology.py\<close>

subsection \<open>The part of networkx the topology uses\<close>

text \<open>
  \<open>nx.Graph\<close> is an undirected graph: a collection of vertices in insertion order and,
  for every edge, one attribute dictionary reachable from both orientations of the
  pair. \<open>add_node\<close> on a present vertex keeps it; \<open>add_edge\<close> adds the missing
  endpoints and overwrites the attributes of an edge that is already there.
  The only attributes the topology stores are \<open>weight\<close> and \<open>link\<close>.
\<close>

datatype weight = Finite real | Infinity

record edge_data =
  e_weight :: weight
  e_link :: NetworkLink

record nx_graph =
  g_nodes :: "string list"
  g_adj :: "((string \<times> string) \<times> edge_data) list"

definition empty_graph :: nx_graph where
  "empty_graph = \<lparr>g_nodes = [], g_adj = []\<rparr>"

definition add_node :: "nx_graph \<Rightarrow> string \<Rightarrow> nx_graph" where
  "add_node G n = (if n \<in> set (g_nodes G) then G else G\<lparr>g_nodes := g_nodes G @ [n]\<rparr>)"

definition add_edge :: "nx_graph \<Rightarrow> string \<Rightarrow> string \<Rightarrow> edge_data \<Rightarrow> nx_graph" where
  "add_edge G u v d =
     (let G' = add_node (add_node G u) v
      in G'\<lparr>g_adj := AList.update (v, u) d (AList.update (u, v) d (g_adj G'))\<rparr>)"

definition has_edge :: "nx_graph \<Rightarrow> string \<Rightarrow> string \<Rightarrow> bool" where
  "has_edge G u v = (map_of (g_adj G) (u, v) \<noteq> None)"

text \<open>
  \<open>nx.dijkstra_path\<close> is library code, not part of the repository. It enters the model
  as a parameter \<open>dp\<close> of this type: the function that, for a graph, a source and a
  target, either returns a list of vertices or raises one of networkx's two exceptions.
\<close>

datatype nx_error = NetworkXNoPath | NodeNotFound

type_synonym dijkstra_path = "nx_graph \<Rightarrow> string \<Rightarrow> string \<Rightarrow> nx_error + string list"

subsection \<open>DAGTopology\<close>

record DAGTopology =
  nodes :: "(string \<times> ComputeNode) list"
  links :: "NetworkLink list"
  graph :: nx_graph
  link_map :: "((string \<times> string) \<times> NetworkLink) list"

text \<open>One iteration of the loop over \<open>self.links\<close> in \<open>_build_graph\<close>.\<close>

definition add_link :: "NetworkLink \<Rightarrow> DAGTopology \<Rightarrow> DAGTopology" where
  "add_link link T =
     (if source link = target link
      then T\<lparr>link_map := AList.update (source link, target link) link (link_map T)\<rparr>
      else
        (let w = (if bandwidth link > 0 then Finite (1 / bandwidth link) else Infinity)
         in T\<lparr>graph := add_edge (graph T) (source link) (target link)
                           \<lparr>e_weight = w, e_link = link\<rparr>,
               link_map := AList.update (target link, source link) link
                             (AList.update (source link, target link) link (link_map T))\<rparr>))"

definition build_graph :: "DAGTopology \<Rightarrow> DAGTopology" where
  "build_graph T =
     fold add_link (links T)
       (T\<lparr>graph := fold (\<lambda>(nid, n) G. add_node G nid) (nodes T) (graph T)\<rparr>)"

definition new_topology :: "(string \<times> ComputeNode) list \<Rightarrow> NetworkLink list \<Rightarrow> DAGTopology" where
  "new_topology ns ls =
     build_graph \<lparr>nodes = ns, links = ls, graph = empty_graph, link_map = []\<rparr>"

definition get_node :: "DAGTopology \<Rightarrow> string \<Rightarrow> ComputeNode option" where
  "get_node T nid = map_of (nodes T) nid"

definition get_link :: "DAGTopology \<Rightarrow> string \<Rightarrow> string \<Rightarrow> NetworkLink option" where
  "get_link T s t = map_of (link_map T) (s, t)"

definition get_path :: "dijkstra_path \<Rightarrow> DAGTopology \<Rightarrow> string \<Rightarrow> string \<Rightarrow> error + string list" where
  "get_path dp T s t =
     (if s = t then Inr [s]
      else (case dp (graph T) s t of
              Inr p \<Rightarrow> Inr p
            | Inl NetworkXNoPath \<Rightarrow> Inl NoPathExists
            | Inl NodeNotFound \<Rightarrow> Inl NodeNotFoundError))"

definition get_path_links ::
  "dijkstra_path \<Rightarrow> DAGTopology \<Rightarrow> string \<Rightarrow> string \<Rightarrow> error + NetworkLink list" where
  "get_path_links dp T s t =
     (if s = t
      then (case map_of (link_map T) (s, t) of Some self_loop \<Rightarrow> Inr [self_loop] | None \<Rightarrow> Inr [])
      else (case get_path dp T s t of
              Inl e \<Rightarrow> Inl e
            | Inr path \<Rightarrow>
                Inr (List.map_filter (\<lambda>i. map_of (link_map T) (path ! i, path ! (i + 1)))
                       [0 ..< length path - 1])))"

text \<open>
  Python's \<open>sum\<close> over the generator of link delays: the delays are added from the left,
  starting at 0, and the first link that raises ends the sum with its exception.
\<close>

fun sum_delays :: "real \<Rightarrow> (error + real) list \<Rightarrow> error + real" where
  "sum_delays acc [] = Inr acc"
| "sum_delays acc (Inl e # rs) = Inl e"
| "sum_delays acc (Inr x # rs) = sum_delays (acc + x) rs"

definition get_transfer_time ::
  "dijkstra_path \<Rightarrow> DAGTopology \<Rightarrow> string \<Rightarrow> string \<Rightarrow> real \<Rightarrow> error + real" where
  "get_transfer_time dp T s t data_size_bytes =
     (if s = t
      then (case map_of (link_map T) (s, t) of
              Some self_loop \<Rightarrow> link_get_transfer_time self_loop data_size_bytes
            | None \<Rightarrow> Inr 0)
      else (case get_path_links dp T s t of
              Inl e \<Rightarrow> Inl e
            | Inr ls \<Rightarrow>
                if ls = [] then Inl NoPathLinks
                else sum_delays 0 (map (\<lambda>l. link_get_transfer_time l data_size_bytes) ls)))"

definition get_compute_time :: "DAGTopology \<Rightarrow> string \<Rightarrow> real \<Rightarrow> real \<Rightarrow> error + real" where
  "get_compute_time T nid cost base_speed =
     (case map_of (nodes T) nid of
        None \<Rightarrow> Inl UnknownNode
      | Some n \<Rightarrow> node_get_compute_time n cost base_speed)"

section \<open>scheduler.py: resolving ids and predecessors\<close>

text \<open>
  \<open>str.rsplit("_", 1)\<close>: split once at the last underscore; a string without an
  underscore comes back whole, as a one-element list.
\<close>

definition rsplit_underscore :: "string \<Rightarrow> string list" where
  "rsplit_underscore s =
     (let r = rev s;
          after = rev (takeWhile (\<lambda>c. c \<noteq> CHR ''_'') r);
          rest = dropWhile (\<lambda>c. c \<noteq> CHR ''_'') r
      in if rest = [] then [s] else [rev (tl rest), after])"

definition startswith_c :: "string \<Rightarrow> bool" where
  "startswith_c s = (case s of [] \<Rightarrow> False | c # _ \<Rightarrow> c = CHR ''c'')"

text \<open>
  \<open>_get_base_task_id\<close>. The dictionary \<open>_task_id_map\<close> of the source starts empty and
  only ever stores, under a scheduled id, the value this function computes for it, so
  the cached and the computed answer are the same and the cache is left out.
\<close>

definition get_base_task_id :: "string \<Rightarrow> string" where
  "get_base_task_id scheduled_task_id =
     (let parts = rsplit_underscore scheduled_task_id
      in if length parts = 2 \<and> startswith_c (parts ! 1) then parts ! 0
         else scheduled_task_id)"

definition cell_suffix :: "string \<Rightarrow> string option" where
  "cell_suffix scheduled_task_id =
     (let parts = rsplit_underscore scheduled_task_id
      in if length parts = 2 \<and> startswith_c (parts ! 1) then Some (parts ! 1) else None)"

definition in_dict :: "'k \<Rightarrow> ('k \<times> 'v) list \<Rightarrow> bool" where
  "in_dict k d = (map_of d k \<noteq> None)"

definition get_predecessors ::
  "(string \<times> TaskDefinition) list \<Rightarrow> (string \<times> ScheduledTask) list \<Rightarrow> string \<Rightarrow> string list" where
  "get_predecessors task_definitions scheduled_tasks scheduled_task_id =
     (case map_of task_definitions (get_base_task_id scheduled_task_id) of
        None \<Rightarrow> []
      | Some task_def \<Rightarrow>
          if predecessors task_def = [] then []
          else (case cell_suffix scheduled_task_id of
                  Some suffix \<Rightarrow>
                    filter (\<lambda>pred_scheduled_id. in_dict pred_scheduled_id scheduled_tasks)
                      (map (\<lambda>pred_base_id. pred_base_id @ ''_'' @ suffix) (predecessors task_def))
                | None \<Rightarrow>
                    filter (\<lambda>pred_base_id. in_dict pred_base_id scheduled_tasks)
                      (predecessors task_def)))"

definition get_data_from_predecessor ::
  "(string \<times> TaskDefinition) list \<Rightarrow> string \<Rightarrow> string \<Rightarrow> real" where
  "get_data_from_predecessor task_definitions pred_task_id current_task_id =
     (case map_of task_definitions (get_base_task_id pred_task_id) of
        None \<Rightarrow> 0
      | Some task_def \<Rightarrow> get_data_to_successor task_def (get_base_task_id current_task_id))"

section \<open>loaders.py: load_dag\<close>

text \<open>
  The argument is the document as \<open>json.load\<close> returns it, after the \<open>.get\<close> defaults:
  the three dictionaries \<open>node_weights\<close>, \<open>dag_structure.edges\<close> and \<open>edge_weights\<close>.
\<close>

record dag_json =
  node_weights :: "(string \<times> real) list"
  dag_edges :: "(string \<times> string list) list"
  edge_weights_raw :: "(string \<times> real) list"

definition strip_parens :: "string \<Rightarrow> string" where
  "strip_parens s =
     (let p = (\<lambda>c. c = CHR ''('' \<or> c = CHR '')'')
      in rev (dropWhile p (rev (dropWhile p s))))"

fun split_on :: "char \<Rightarrow> string \<Rightarrow> string list" where
  "split_on sep [] = [[]]"
| "split_on sep (c # cs) =
     (if c = sep then [] # split_on sep cs
      else (case split_on sep cs of
              [] \<Rightarrow> [[c]]
            | w # ws \<Rightarrow> (c # w) # ws))"

definition parse_edge_key :: "string \<Rightarrow> string list" where
  "parse_edge_key key =
     split_on CHR '',''
       (filter (\<lambda>c. c \<noteq> CHR '' '') (filter (\<lambda>c. c \<noteq> CHR 0x27) (strip_parens key)))"

definition add_edge_weight ::
  "string \<times> real \<Rightarrow> (string \<times> (string \<times> real) list) list \<Rightarrow> (string \<times> (string \<times> real) list) list" where
  "add_edge_weight kv ew =
     (case parse_edge_key (fst kv) of
        [src, dst] \<Rightarrow>
          AList.update src
            (AList.update dst (snd kv) (case map_of ew src of None \<Rightarrow> [] | Some d \<Rightarrow> d)) ew
      | _ \<Rightarrow> ew)"

definition append_pred ::
  "string \<Rightarrow> string \<Rightarrow> (string \<times> string list) list \<Rightarrow> (string \<times> string list) list" where
  "append_pred src dst preds =
     AList.update dst ((case map_of preds dst of None \<Rightarrow> [] | Some ps \<Rightarrow> ps) @ [src]) preds"

definition build_predecessors :: "dag_json \<Rightarrow> (string \<times> string list) list" where
  "build_predecessors data =
     fold (\<lambda>(src, succs) preds. fold (append_pred src) succs preds) (dag_edges data)
       (fold (\<lambda>(tid, cost) preds. AList.update tid [] preds) (node_weights data) [])"

definition load_dag :: "dag_json \<Rightarrow> (string \<times> TaskDefinition) list" where
  "load_dag data =
     (let edge_weights = fold add_edge_weight (edge_weights_raw data) [];
          preds = build_predecessors data
      in fold (\<lambda>(tid, cost) tasks.
                 AList.update tid
                   \<lparr>td_task_id = tid,
                    compute_cost = cost,
                    successors = (case map_of (dag_edges data) tid of None \<Rightarrow> [] | Some ss \<Rightarrow> ss),
                    predecessors = (case map_of preds tid of None \<Rightarrow> [] | Some ps \<Rightarrow> ps),
                    edge_weights = (case map_of edge_weights tid of None \<Rightarrow> [] | Some d \<Rightarrow> d)\<rparr>
                   tasks)
           (node_weights data) [])"

text \<open>
  The scheduled id that a predecessor of the base task is mapped to inside the loop of
  \<open>_get_predecessors\<close>: the predecessor's id with the instance's own cell suffix, or the
  bare id when the instance has none.
\<close>

definition mapped_predecessor :: "string \<Rightarrow> string \<Rightarrow> string" where
  "mapped_predecessor scheduled_task_id pred_base_id =
     (case cell_suffix scheduled_task_id of
        Some suffix \<Rightarrow> pred_base_id @ ''_'' @ suffix
      | None \<Rightarrow> pred_base_id)"

section \<open>scheduler.py: the replay on simpy's event queue\<close>

record DAGScheduler =
  topology :: DAGTopology
  task_definitions :: "(string \<times> TaskDefinition) list"
  scheduled_tasks :: "(string \<times> ScheduledTask) list"
  base_compute_speed :: real

text \<open>
  The dictionary \<open>scheduled_tasks\<close> is read in two ways. Its keys and the fields
  \<open>task_id\<close> and \<open>node_id\<close> of its values are never written during a run: they are read
  from the scheduler record. The fields \<open>actual_start\<close>, \<open>actual_end\<close>, \<open>uplink_time\<close>
  and \<open>compute_time\<close> are written by the task's own process: the simulation state
  carries the objects in \<open>tasks\<close>. A process is named by the key of its task;
  \<open>load_schedule\<close> stores every task under its own \<open>task_id\<close>.
\<close>

subsection \<open>The uplink duration\<close>

text \<open>
  The loop that fills \<open>transfer_times\<close> in \<open>_execute_task\<close>: one transfer time per
  predecessor that is a scheduled task and owes a positive number of bytes; the first
  failing topology query raises.
\<close>

fun transfer_times ::
  "dijkstra_path \<Rightarrow> DAGScheduler \<Rightarrow> ScheduledTask \<Rightarrow> string \<Rightarrow> string list \<Rightarrow> error + real list" where
  "transfer_times dp S me tid [] = Inr []"
| "transfer_times dp S me tid (pred_id # rest) =
     (case map_of (scheduled_tasks S) pred_id of
        None \<Rightarrow> transfer_times dp S me tid rest
      | Some pred_task \<Rightarrow>
          (let data_size = get_data_from_predecessor (task_definitions S) pred_id tid
           in if data_size > 0
              then (case get_transfer_time dp (topology S) (node_id pred_task) (node_id me) data_size of
                      Inl e \<Rightarrow> Inl e
                    | Inr transfer_time \<Rightarrow>
                        (case transfer_times dp S me tid rest of
                           Inl e \<Rightarrow> Inl e
                         | Inr ts \<Rightarrow> Inr (transfer_time # ts)))
              else transfer_times dp S me tid rest))"

fun max_list :: "real list \<Rightarrow> real" where
  "max_list [] = 0"
| "max_list [x] = x"
| "max_list (x # y # ys) = max x (max_list (y # ys))"

definition compute_uplink ::
  "dijkstra_path \<Rightarrow> DAGScheduler \<Rightarrow> ScheduledTask \<Rightarrow> string \<Rightarrow> string list \<Rightarrow> error + real" where
  "compute_uplink dp S me tid preds =
     (case transfer_times dp S me tid preds of
        Inl e \<Rightarrow> Inl e
      | Inr ts \<Rightarrow> Inr (if ts = [] then 0 else max_list ts))"

subsection \<open>The part of simpy the scheduler uses\<close>

text \<open>
  simpy keeps a heap of entries (time, priority, event id, event) and \<open>env.run()\<close>
  pops the least entry, sets \<open>env.now\<close> to its time and runs the event's callbacks,
  until the heap is empty. \<open>env.process\<close> schedules an \<open>Initialize\<close> event with the
  urgent priority at the current time; \<open>env.timeout(d)\<close> schedules an event at
  \<open>now + d\<close> and raises for a negative \<open>d\<close>; \<open>event.succeed()\<close> schedules the
  event at the current time; \<open>AllOf\<close> is triggered (scheduled at the current time) by
  the callback that sees the last of its events processed; a generator that returns
  schedules its process event. A generator runs from one \<open>yield\<close> to the next when
  the event it waits for is popped. The events are named by what they are to the
  scheduler and by the task they belong to.

  An exception that leaves a generator makes simpy schedule the failed process event
  at the current time; no callback handles it, so \<open>env.run()\<close> re-raises the exception
  when that entry is popped and \<open>DAGScheduler.run\<close> ends with it. The model ends the
  run with the exception at the moment it is raised.
\<close>

datatype event =
    Initialize string       \<comment> \<open>start of the process of a task\<close>
  | AllOf string            \<comment> \<open>the condition a task waits on: all predecessor events\<close>
  | UplinkTimeout string    \<comment> \<open>\<open>env.timeout(uplink_time)\<close> of a task\<close>
  | ComputeTimeout string   \<comment> \<open>\<open>env.timeout(compute_time)\<close> of a task\<close>
  | Completion string       \<comment> \<open>\<open>completion_events[task_id]\<close>\<close>
  | ProcessExit string      \<comment> \<open>the process event of a generator that returned\<close>

text \<open>Where the generator of \<open>_execute_task\<close> is suspended.\<close>

datatype phase = AtStart | AtWait | AtUplink | AtCompute | Finished

record process =
  p_phase :: phase
  p_triggered :: bool   \<comment> \<open>the \<open>AllOf\<close> condition of the process has been triggered\<close>

type_synonym entry = "real \<times> nat \<times> nat \<times> event"

record sim =
  now :: real
  eid :: nat
  queue :: "entry list"
  tasks :: "(string \<times> ScheduledTask) list"
  procs :: "(string \<times> process) list"
  processed :: "string list"   \<comment> \<open>completion events whose callbacks have run\<close>

definition URGENT :: nat where "URGENT = 0"
definition NORMAL :: nat where "NORMAL = 1"

definition schedule :: "event \<Rightarrow> nat \<Rightarrow> real \<Rightarrow> sim \<Rightarrow> sim" where
  "schedule ev priority delay st =
     st\<lparr>queue := queue st @ [(now st + delay, priority, eid st, ev)], eid := eid st + 1\<rparr>"

fun entry_le :: "entry \<Rightarrow> entry \<Rightarrow> bool" where
  "entry_le (t1, p1, e1, _) (t2, p2, e2, _) =
     (t1 < t2 \<or> (t1 = t2 \<and> (p1 < p2 \<or> (p1 = p2 \<and> e1 \<le> e2))))"

fun min_entry :: "entry \<Rightarrow> entry list \<Rightarrow> entry" where
  "min_entry m [] = m"
| "min_entry m (x # xs) = min_entry (if entry_le m x then m else x) xs"

definition pop :: "entry list \<Rightarrow> (entry \<times> entry list) option" where
  "pop q = (case q of [] \<Rightarrow> None | x # xs \<Rightarrow> (let m = min_entry x xs in Some (m, remove1 m q)))"

definition set_task :: "string \<Rightarrow> (ScheduledTask \<Rightarrow> ScheduledTask) \<Rightarrow> sim \<Rightarrow> sim" where
  "set_task tid f st = st\<lparr>tasks := AList.map_entry tid f (tasks st)\<rparr>"

definition set_proc :: "string \<Rightarrow> (process \<Rightarrow> process) \<Rightarrow> sim \<Rightarrow> sim" where
  "set_proc tid f st = st\<lparr>procs := AList.map_entry tid f (procs st)\<rparr>"

subsection \<open>The generator of \<open>_execute_task\<close>, from one suspension to the next\<close>

text \<open>
  \<open>pred_events\<close>: the completion events of the resolved predecessors that have an
  entry in \<open>completion_events\<close>, whose keys are the keys of the schedule.
\<close>

definition pred_events :: "DAGScheduler \<Rightarrow> string \<Rightarrow> string list" where
  "pred_events S tid =
     filter (\<lambda>pred_id. in_dict pred_id (scheduled_tasks S))
       (get_predecessors (task_definitions S) (scheduled_tasks S) tid)"

text \<open>From the second recording of \<open>actual_start\<close> to the compute timeout.\<close>

definition enter_compute ::
  "DAGScheduler \<Rightarrow> string \<Rightarrow> ScheduledTask \<Rightarrow> TaskDefinition \<Rightarrow> sim \<Rightarrow> error + sim" where
  "enter_compute S tid me task_def st =
     (let st1 = set_task tid (\<lambda>t. t\<lparr>actual_start := Some (now st)\<rparr>) st
      in case get_compute_time (topology S) (node_id me) (compute_cost task_def)
                (base_compute_speed S) of
           Inl e \<Rightarrow> Inl e
         | Inr ct \<Rightarrow>
             (let st2 = set_task tid (\<lambda>t. t\<lparr>compute_time := ct\<rparr>) st1
              in if ct < 0 then Inl NegativeDelay
                 else Inr (set_proc tid (\<lambda>p. p\<lparr>p_phase := AtCompute\<rparr>)
                             (schedule (ComputeTimeout tid) NORMAL ct st2))))"

text \<open>From the end of the wait for the predecessors to the uplink timeout.\<close>

definition enter_transfer ::
  "dijkstra_path \<Rightarrow> DAGScheduler \<Rightarrow> string \<Rightarrow> ScheduledTask \<Rightarrow> TaskDefinition \<Rightarrow> sim \<Rightarrow> error + sim" where
  "enter_transfer dp S tid me task_def st =
     (let st1 = set_task tid (\<lambda>t. t\<lparr>actual_start := Some (now st)\<rparr>) st
      in case compute_uplink dp S me tid
                (get_predecessors (task_definitions S) (scheduled_tasks S) tid) of
           Inl e \<Rightarrow> Inl e
         | Inr u \<Rightarrow>
             (let st2 = set_task tid (\<lambda>t. t\<lparr>uplink_time := u\<rparr>) st1
              in if u > 0
                 then Inr (set_proc tid (\<lambda>p. p\<lparr>p_phase := AtUplink\<rparr>)
                             (schedule (UplinkTimeout tid) NORMAL u st2))
                 else enter_compute S tid me task_def st2))"

text \<open>
  From the start of the generator to the wait for the predecessors. An \<open>AllOf\<close> whose
  events have all been processed already is triggered when it is created.
\<close>

definition start_process ::
  "dijkstra_path \<Rightarrow> DAGScheduler \<Rightarrow> string \<Rightarrow> ScheduledTask \<Rightarrow> sim \<Rightarrow> error + sim" where
  "start_process dp S tid me st =
     (case map_of (task_definitions S) (get_base_task_id tid) of
        None \<Rightarrow> Inl NoTaskDefinition
      | Some task_def \<Rightarrow>
          if get_predecessors (task_definitions S) (scheduled_tasks S) tid \<noteq> []
             \<and> pred_events S tid \<noteq> []
          then (let triggered = (\<forall>p \<in> set (pred_events S tid). p \<in> set (processed st))
                in Inr (set_proc tid (\<lambda>p. p\<lparr>p_phase := AtWait, p_triggered := triggered\<rparr>)
                          (if triggered then schedule (AllOf tid) NORMAL 0 st else st)))
          else enter_transfer dp S tid me task_def st)"

text \<open>From the end of the compute timeout to the return of the generator.\<close>

definition finish_task :: "string \<Rightarrow> sim \<Rightarrow> sim" where
  "finish_task tid st =
     (let st1 = set_task tid (\<lambda>t. t\<lparr>actual_end := Some (now st)\<rparr>) st;
          st2 = schedule (Completion tid) NORMAL 0 st1;
          st3 = schedule (ProcessExit tid) NORMAL 0 st2
      in set_proc tid (\<lambda>p. p\<lparr>p_phase := Finished\<rparr>) st3)"

text \<open>
  The callbacks of a completion event: the check of every \<open>AllOf\<close> that contains it,
  in the order in which the conditions were created, which is the order of the
  processes. A condition is triggered by the check that finds all its events processed.
\<close>

definition check_condition :: "DAGScheduler \<Rightarrow> string \<Rightarrow> string \<Rightarrow> sim \<Rightarrow> sim" where
  "check_condition S done_id w st =
     (case map_of (procs st) w of
        None \<Rightarrow> st
      | Some pr \<Rightarrow>
          if p_phase pr = AtWait \<and> \<not> p_triggered pr \<and> done_id \<in> set (pred_events S w)
             \<and> (\<forall>p \<in> set (pred_events S w). p \<in> set (processed st))
          then set_proc w (\<lambda>p. p\<lparr>p_triggered := True\<rparr>) (schedule (AllOf w) NORMAL 0 st)
          else st)"

definition process_completion :: "DAGScheduler \<Rightarrow> string \<Rightarrow> sim \<Rightarrow> sim" where
  "process_completion S done_id st =
     fold (check_condition S done_id) (map fst (procs st))
       (st\<lparr>processed := done_id # processed st\<rparr>)"

text \<open>
  One popped event. A process is resumed only by the event it is suspended on.
\<close>

definition resume ::
  "dijkstra_path \<Rightarrow> DAGScheduler \<Rightarrow> string \<Rightarrow> phase \<Rightarrow>
     (ScheduledTask \<Rightarrow> TaskDefinition option \<Rightarrow> sim \<Rightarrow> error + sim) \<Rightarrow> sim \<Rightarrow> error + sim" where
  "resume dp S tid ph body st =
     (case (map_of (scheduled_tasks S) tid, map_of (procs st) tid) of
        (Some me, Some pr) \<Rightarrow>
          if p_phase pr = ph
          then body me (map_of (task_definitions S) (get_base_task_id tid)) st
          else Inr st
      | _ \<Rightarrow> Inr st)"

fun step :: "dijkstra_path \<Rightarrow> DAGScheduler \<Rightarrow> event \<Rightarrow> sim \<Rightarrow> error + sim" where
  "step dp S (Initialize tid) st =
     resume dp S tid AtStart (\<lambda>me td. start_process dp S tid me) st"
| "step dp S (AllOf tid) st =
     resume dp S tid AtWait
       (\<lambda>me td s. case td of None \<Rightarrow> Inl NoTaskDefinition
                   | Some task_def \<Rightarrow> enter_transfer dp S tid me task_def s) st"
| "step dp S (UplinkTimeout tid) st =
     resume dp S tid AtUplink
       (\<lambda>me td s. case td of None \<Rightarrow> Inl NoTaskDefinition
                   | Some task_def \<Rightarrow> enter_compute S tid me task_def s) st"
| "step dp S (ComputeTimeout tid) st =
     resume dp S tid AtCompute (\<lambda>me td s. Inr (finish_task tid s)) st"
| "step dp S (Completion tid) st = Inr (process_completion S tid st)"
| "step dp S (ProcessExit tid) st = Inr st"

text \<open>\<open>env.run()\<close>: pop and process entries until the heap is empty.\<close>

function run_loop :: "dijkstra_path \<Rightarrow> DAGScheduler \<Rightarrow> sim \<Rightarrow> error + sim" where
  "run_loop dp S st =
     (case pop (queue st) of
        None \<Rightarrow> Inr st
      | Some (entry, q) \<Rightarrow>
          (case step dp S (snd (snd (snd entry))) (st\<lparr>now := fst entry, queue := q\<rparr>) of
             Inl e \<Rightarrow> Inl e
           | Inr st' \<Rightarrow> run_loop dp S st'))"
  by pat_completeness auto

subsection \<open>DAGScheduler.run\<close>

definition init_sim :: "DAGScheduler \<Rightarrow> sim" where
  "init_sim S =
     \<lparr>now = 0, eid = 0, queue = [], tasks = scheduled_tasks S,
      procs = map (\<lambda>(k, t). (k, \<lparr>p_phase = AtStart, p_triggered = False\<rparr>)) (scheduled_tasks S),
      processed = []\<rparr>"

definition start_all :: "DAGScheduler \<Rightarrow> sim \<Rightarrow> sim" where
  "start_all S st = fold (\<lambda>(k, t). schedule (Initialize k) URGENT 0) (scheduled_tasks S) st"

text \<open>
  The makespan is the maximum of the \<open>actual_end\<close> values that are not \<open>None\<close>; Python's
  \<open>max\<close> raises on an empty sequence. The result carries the final state, in which
  the fields written during the replay can be read.
\<close>

definition recorded_ends :: "sim \<Rightarrow> real list" where
  "recorded_ends st = List.map_filter (\<lambda>(k, t). actual_end t) (tasks st)"

definition run :: "dijkstra_path \<Rightarrow> DAGScheduler \<Rightarrow> error + (real \<times> sim)" where
  "run dp S =
     (case run_loop dp S (start_all S (init_sim S)) of
        Inl e \<Rightarrow> Inl e
      | Inr st \<Rightarrow>
          if recorded_ends st = [] then Inl EmptySequence
          else Inr (max_list (recorded_ends st), st))"

text \<open>The measure of the event loop: pending entries plus the entries each process may still add.\<close>

definition budget :: "process \<Rightarrow> nat" where
  "budget p =
     (case p_phase p of
        AtStart \<Rightarrow> 5
      | AtWait \<Rightarrow> (if p_triggered p then 4 else 5)
      | AtUplink \<Rightarrow> 3
      | AtCompute \<Rightarrow> 2
      | Finished \<Rightarrow> 0)"

definition potential :: "sim \<Rightarrow> nat" where
  "potential st = length (queue st) + sum_list (map (\<lambda>kp. budget (snd kp)) (procs st))"

section \<open>Auxiliary notions for the statements\<close>

text \<open>The self-loop links of a node, in the order of the link list.\<close>

definition self_loops_of :: "string \<Rightarrow> NetworkLink list \<Rightarrow> NetworkLink list" where
  "self_loops_of n ls = filter (\<lambda>l. source l = n \<and> target l = n) ls"

text \<open>
  The consecutive pairs of a vertex list, and what networkx means by a path from s to t
  in a graph: a non-empty vertex list from s to t whose consecutive pairs are edges.
\<close>

definition path_edges :: "string list \<Rightarrow> (string \<times> string) list" where
  "path_edges p = zip p (tl p)"

definition is_path :: "nx_graph \<Rightarrow> string \<Rightarrow> string \<Rightarrow> string list \<Rightarrow> bool" where
  "is_path G s t p =
     (p \<noteq> [] \<and> hd p = s \<and> last p = t \<and> (\<forall>(u, v) \<in> set (path_edges p). has_edge G u v))"

text \<open>
  Edge weights are floats that may be infinite; they are added and compared as floats
  are. The weight of a vertex list is the sum of the weights of its consecutive pairs.
\<close>

fun weight_add :: "weight \<Rightarrow> weight \<Rightarrow> weight" where
  "weight_add (Finite a) (Finite b) = Finite (a + b)"
| "weight_add _ _ = Infinity"

fun weight_le :: "weight \<Rightarrow> weight \<Rightarrow> bool" where
  "weight_le _ Infinity = True"
| "weight_le Infinity (Finite b) = False"
| "weight_le (Finite a) (Finite b) = (a \<le> b)"

definition edge_weight :: "nx_graph \<Rightarrow> string \<Rightarrow> string \<Rightarrow> weight" where
  "edge_weight G u v = (case map_of (g_adj G) (u, v) of Some d \<Rightarrow> e_weight d | None \<Rightarrow> Infinity)"

definition path_weight :: "nx_graph \<Rightarrow> string list \<Rightarrow> weight" where
  "path_weight G p = foldr (\<lambda>(u, v) w. weight_add (edge_weight G u v) w) (path_edges p) (Finite 0)"

text \<open>The weight \<open>_build_graph\<close> computes for a link.\<close>

definition inverse_bandwidth :: "NetworkLink \<Rightarrow> weight" where
  "inverse_bandwidth l = (if bandwidth l > 0 then Finite (1 / bandwidth l) else Infinity)"

text \<open>
  What networkx documents of \<open>dijkstra_path\<close>, at one call: \<open>NodeNotFound\<close> is raised
  only for a source that is not in the graph, \<open>NetworkXNoPath\<close> only when no path joins
  source and target, and a returned list is a path from source to target of least
  total weight.
\<close>

definition dijkstra_contract :: "dijkstra_path \<Rightarrow> nx_graph \<Rightarrow> string \<Rightarrow> string \<Rightarrow> bool" where
  "dijkstra_contract dp G s t =
     (case dp G s t of
        Inl NodeNotFound \<Rightarrow> s \<notin> set (g_nodes G)
      | Inl NetworkXNoPath \<Rightarrow> s \<in> set (g_nodes G) \<and> (\<forall>q. \<not> is_path G s t q)
      | Inr p \<Rightarrow>
          s \<in> set (g_nodes G) \<and> is_path G s t p
          \<and> (\<forall>q. is_path G s t q \<longrightarrow> weight_le (path_weight G p) (path_weight G q)))"

text \<open>
  The relation that \<open>_build_graph\<close> keeps between the graph and the link lookup: an edge
  joins two distinct vertices, carries the inverse bandwidth of its link, and its link
  is the one the lookup holds for the pair.
\<close>

definition graph_ok :: "DAGTopology \<Rightarrow> bool" where
  "graph_ok T =
     (\<forall>u v d. map_of (g_adj (graph T)) (u, v) = Some d \<longrightarrow>
        u \<noteq> v \<and> u \<in> set (g_nodes (graph T)) \<and> v \<in> set (g_nodes (graph T))
        \<and> e_weight d = inverse_bandwidth (e_link d)
        \<and> map_of (link_map T) (u, v) = Some (e_link d))"

text \<open>\<open>d.get(k, [])\<close> for a dictionary of lists.\<close>

definition lookup_list :: "('k \<times> 'v list) list \<Rightarrow> 'k \<Rightarrow> 'v list" where
  "lookup_list d k = (case map_of d k of None \<Rightarrow> [] | Some xs \<Rightarrow> xs)"

text \<open>The timing fields of the tasks in a final state, and the result of a run reduced to them.\<close>

definition timings :: "sim \<Rightarrow> (string \<times> real option \<times> real option \<times> real \<times> real) list" where
  "timings st =
     map (\<lambda>(k, t). (k, actual_start t, actual_end t, uplink_time t, compute_time t)) (tasks st)"

definition outcome ::
  "error + (real \<times> sim) \<Rightarrow>
     error + (real \<times> (string \<times> real option \<times> real option \<times> real \<times> real) list)" where
  "outcome r = (case r of Inl e \<Rightarrow> Inl e | Inr (m, st) \<Rightarrow> Inr (m, timings st))"

section \<open>The invariant of the replay\<close>

text \<open>
  Reading the state: the event of a queue entry and the events that are pending, the
  object of a task and the suspension point of its process; the resolved predecessors
  of a scheduled task.
\<close>

definition ev :: "entry \<Rightarrow> event" where
  "ev en = snd (snd (snd en))"

definition evs :: "sim \<Rightarrow> event set" where
  "evs st = ev ` set (queue st)"

definition task_of :: "sim \<Rightarrow> string \<Rightarrow> ScheduledTask option" where
  "task_of st tid = map_of (tasks st) tid"

definition phase_of :: "sim \<Rightarrow> string \<Rightarrow> phase option" where
  "phase_of st tid = map_option p_phase (map_of (procs st) tid)"

definition resolved_preds :: "DAGScheduler \<Rightarrow> string \<Rightarrow> string list" where
  "resolved_preds S tid = get_predecessors (task_definitions S) (scheduled_tasks S) tid"

text \<open>
  The recorded \<open>uplink_time\<close> is what the uplink computation returns for the task, and
  every resolved predecessor has finished and recorded an end no later than a given time.
\<close>

definition uplink_ok :: "dijkstra_path \<Rightarrow> DAGScheduler \<Rightarrow> string \<Rightarrow> ScheduledTask \<Rightarrow> bool" where
  "uplink_ok dp S tid t =
     (\<exists>me. map_of (scheduled_tasks S) tid = Some me
           \<and> compute_uplink dp S me tid (resolved_preds S tid) = Inr (uplink_time t))"

definition preds_done :: "DAGScheduler \<Rightarrow> sim \<Rightarrow> string \<Rightarrow> real \<Rightarrow> bool" where
  "preds_done S st tid x =
     (\<forall>p \<in> set (resolved_preds S tid).
        phase_of st p = Some Finished
        \<and> (\<exists>tp e. task_of st p = Some tp \<and> actual_end tp = Some e \<and> e \<le> x))"

text \<open>
  The time at which the wait of a task for its predecessors ends: 0 for a task without
  resolved predecessors, and otherwise the latest recorded end of a predecessor, all
  of which have finished.
\<close>

definition wait_end :: "DAGScheduler \<Rightarrow> sim \<Rightarrow> string \<Rightarrow> real \<Rightarrow> bool" where
  "wait_end S st tid w =
     (if resolved_preds S tid = [] then w = 0
      else preds_done S st tid w
           \<and> (\<exists>p \<in> set (resolved_preds S tid).
                 \<exists>tp. task_of st p = Some tp \<and> actual_end tp = Some w))"

text \<open>
  What holds of a task at each suspension point of its process. \<open>popped\<close> is the event
  of the entry that has just been taken from the queue and not been processed yet.
\<close>

definition phase_inv ::
  "dijkstra_path \<Rightarrow> DAGScheduler \<Rightarrow> sim \<Rightarrow> event option \<Rightarrow> string \<Rightarrow> ScheduledTask \<Rightarrow> phase \<Rightarrow> bool" where
  "phase_inv dp S st popped tid t ph =
     (case ph of
        AtStart \<Rightarrow>
          (popped \<noteq> Some (Initialize tid) \<longrightarrow> Initialize tid \<in> evs st)
          \<and> ComputeTimeout tid \<notin> evs st \<and> UplinkTimeout tid \<notin> evs st \<and> AllOf tid \<notin> evs st
      | AtWait \<Rightarrow>
          ComputeTimeout tid \<notin> evs st \<and> UplinkTimeout tid \<notin> evs st
          \<and> resolved_preds S tid \<noteq> []
          \<and> (\<forall>en \<in> set (queue st). ev en = AllOf tid \<longrightarrow> wait_end S st tid (fst en))
      | AtUplink \<Rightarrow>
          ComputeTimeout tid \<notin> evs st \<and> resolved_preds S tid \<noteq> [] \<and> uplink_ok dp S tid t
          \<and> (\<exists>w. actual_start t = Some w \<and> wait_end S st tid w
                \<and> (\<forall>en \<in> set (queue st). ev en = UplinkTimeout tid \<longrightarrow>
                      fst en = w + uplink_time t))
      | AtCompute \<Rightarrow>
          (\<exists>s. actual_start t = Some s
             \<and> (\<forall>en \<in> set (queue st). ev en = ComputeTimeout tid \<longrightarrow> fst en = s + compute_time t)
             \<and> wait_end S st tid (s - uplink_time t))
          \<and> uplink_ok dp S tid t
      | Finished \<Rightarrow>
          (\<exists>s. actual_start t = Some s \<and> actual_end t = Some (s + compute_time t)
             \<and> s + compute_time t \<le> now st \<and> 0 \<le> s + compute_time t
             \<and> (\<forall>en \<in> set (queue st). ev en = Completion tid \<longrightarrow> fst en = s + compute_time t)
             \<and> wait_end S st tid (s - uplink_time t))
          \<and> uplink_ok dp S tid t)"

definition local_inv ::
  "dijkstra_path \<Rightarrow> DAGScheduler \<Rightarrow> sim \<Rightarrow> event option \<Rightarrow> string \<Rightarrow> bool" where
  "local_inv dp S st popped tid =
     ((Completion tid \<in> evs st \<or> tid \<in> set (processed st) \<longrightarrow>
            phase_of st tid = Some Finished)
      \<and> (\<forall>t ph. task_of st tid = Some t \<and> phase_of st tid = Some ph \<longrightarrow>
            phase_inv dp S st popped tid t ph))"

text \<open>
  The tasks and the processes are those of the schedule; time is not negative, no entry
  lies in the past and the \<open>Initialize\<close> entries are at time 0.
\<close>

definition keys_ok :: "DAGScheduler \<Rightarrow> sim \<Rightarrow> bool" where
  "keys_ok S st =
     (\<forall>tid. (task_of st tid \<noteq> None) = in_dict tid (scheduled_tasks S)
          \<and> (phase_of st tid \<noteq> None) = in_dict tid (scheduled_tasks S))"

definition times_ok :: "sim \<Rightarrow> bool" where
  "times_ok st =
     (0 \<le> now st
      \<and> (\<forall>en \<in> set (queue st). now st \<le> fst en \<and> (\<forall>tid. ev en = Initialize tid \<longrightarrow> fst en = 0)))"

definition replay_inv :: "dijkstra_path \<Rightarrow> DAGScheduler \<Rightarrow> sim \<Rightarrow> event option \<Rightarrow> bool" where
  "replay_inv dp S st popped =
     (keys_ok S st \<and> times_ok st \<and> (\<forall>tid. local_inv dp S st popped tid))"

text \<open>
  A change made by the process of one task: entries for events of that task are added,
  not before the current time, the task is not finished, and nothing else changes.
\<close>

definition owned :: "string \<Rightarrow> event set" where
  "owned tid = {AllOf tid, UplinkTimeout tid, ComputeTimeout tid, Completion tid, ProcessExit tid}"

definition touches :: "string \<Rightarrow> sim \<Rightarrow> sim \<Rightarrow> bool" where
  "touches tid st st' =
     (now st' = now st \<and> processed st' = processed st
      \<and> (\<exists>new. queue st' = queue st @ new
            \<and> (\<forall>en \<in> set new. now st \<le> fst en \<and> ev en \<in> owned tid))
      \<and> (\<forall>k. k \<noteq> tid \<longrightarrow> task_of st' k = task_of st k \<and> phase_of st' k = phase_of st k)
      \<and> (task_of st' tid \<noteq> None) = (task_of st tid \<noteq> None)
      \<and> (phase_of st' tid \<noteq> None) = (phase_of st tid \<noteq> None)
      \<and> phase_of st tid \<noteq> Some Finished)"



text \<open>The changes made by the callbacks of the completion event of task \<open>d\<close>.\<close>

definition wakes :: "DAGScheduler \<Rightarrow> string \<Rightarrow> sim \<Rightarrow> sim \<Rightarrow> bool" where
  "wakes S d st0 st =
     (now st = now st0 \<and> tasks st = tasks st0 \<and> processed st = processed st0
      \<and> (\<forall>k. phase_of st k = phase_of st0 k)
      \<and> (\<exists>new. queue st = queue st0 @ new
            \<and> (\<forall>en \<in> set new. fst en = now st0
                  \<and> (\<exists>w. ev en = AllOf w \<and> phase_of st0 w = Some AtWait
                        \<and> d \<in> set (pred_events S w)
                        \<and> (\<forall>p \<in> set (pred_events S w). p \<in> set (processed st0))))))"

section \<open>Example inputs\<close>

text \<open>
  On a graph in which the only edge at the source joins it with the target,
  \<open>nx.dijkstra_path\<close> returns the two-vertex path of that edge; it raises
  \<open>NodeNotFound\<close> for a source that is not a vertex and \<open>NetworkXNoPath\<close> when nothing
  joins the two. \<open>direct_path\<close> is this function. It stands for the library in the
  examples, all of which have such graphs.
\<close>

definition direct_path :: dijkstra_path where
  "direct_path G s t =
     (if s \<notin> set (g_nodes G) then Inl NodeNotFound
      else if has_edge G s t then Inr [s, t] else Inl NetworkXNoPath)"

text \<open>A \<open>ScheduledTask\<close> as \<open>load_schedule\<close> constructs it: the replay fields at their defaults.\<close>

definition new_task :: "string \<Rightarrow> string \<Rightarrow> real \<Rightarrow> real \<Rightarrow> real \<Rightarrow> ScheduledTask" where
  "new_task tid nid s e d =
     \<lparr>task_id = tid, node_id = nid, scheduled_start = s, scheduled_end = e,
      scheduled_duration = d, actual_start = None, actual_end = None,
      uplink_time = 0, compute_time = 0, downlink_time = 0\<rparr>"

text \<open>
  The end-to-end scenario: tasks T0 and T1 with costs 10 and 5, 1,000,000 bytes from T0
  to T1, two nodes of speed multiplier 1 joined by one link, base speed 1, T0 placed on
  the first node and T1 on the second. The bandwidth of the link is a parameter.
\<close>

definition ex_dag :: dag_json where
  "ex_dag =
     \<lparr>node_weights = [(''T0'', 10), (''T1'', 5)],
      dag_edges = [(''T0'', [''T1''])],
      edge_weights_raw = [(''('T0', 'T1')'', 1000000)]\<rparr>"

definition ex_defs :: "(string \<times> TaskDefinition) list" where
  "ex_defs =
     [(''T0'', \<lparr>td_task_id = ''T0'', compute_cost = 10, successors = [''T1''],
               predecessors = [], edge_weights = [(''T1'', 1000000)]\<rparr>),
      (''T1'', \<lparr>td_task_id = ''T1'', compute_cost = 5, successors = [],
               predecessors = [''T0''], edge_weights = []\<rparr>)]"

definition ex_nodes :: "(string \<times> ComputeNode) list" where
  "ex_nodes =
     [(''N0'', \<lparr>cn_node_id = ''N0'', speed_multiplier = 1, node_type = ''DU''\<rparr>),
      (''N1'', \<lparr>cn_node_id = ''N1'', speed_multiplier = 1, node_type = ''DU''\<rparr>)]"

definition ex_links :: "real \<Rightarrow> NetworkLink list" where
  "ex_links bw = [\<lparr>source = ''N0'', target = ''N1'', bandwidth = bw, link_type = ''core''\<rparr>]"

definition ex_schedule :: "(string \<times> ScheduledTask) list" where
  "ex_schedule =
     [(''T0'', new_task ''T0'' ''N0'' 0 10 10),
      (''T1'', new_task ''T1'' ''N1'' 11 16 5)]"

definition ex_scheduler :: "real \<Rightarrow> DAGScheduler" where
  "ex_scheduler bw =
     \<lparr>topology = new_topology ex_nodes (ex_links bw), task_definitions = ex_defs,
      scheduled_tasks = ex_schedule, base_compute_speed = 1\<rparr>"

text \<open>A schedule of the two tasks for the cell c6.\<close>

definition cell_schedule :: "(string \<times> ScheduledTask) list" where
  "cell_schedule =
     [(''T0_c6'', new_task ''T0_c6'' ''N0'' 0 10 10),
      (''T1_c6'', new_task ''T1_c6'' ''N1'' 11 16 5)]"

text \<open>
  A document whose edges form a cycle between A and B, next to an independent task C,
  all three scheduled on the first node.
\<close>

definition cyc_dag :: dag_json where
  "cyc_dag =
     \<lparr>node_weights = [(''A'', 1), (''B'', 1), (''C'', 2)],
      dag_edges = [(''A'', [''B'']), (''B'', [''A''])],
      edge_weights_raw = []\<rparr>"

definition cyc_schedule :: "(string \<times> ScheduledTask) list" where
  "cyc_schedule =
     [(''A'', new_task ''A'' ''N0'' 0 1 1),
      (''B'', new_task ''B'' ''N0'' 1 2 1),
      (''C'', new_task ''C'' ''N0'' 0 2 2)]"

definition cyc_scheduler :: DAGScheduler where
  "cyc_scheduler =
     \<lparr>topology = new_topology ex_nodes (ex_links 8), task_definitions = load_dag cyc_dag,
      scheduled_tasks = cyc_schedule, base_compute_speed = 1\<rparr>"


text \<open>The scenario with a schedule that predicts the start of T0 at time 7.\<close>

definition late_scheduler :: DAGScheduler where
  "late_scheduler =
     \<lparr>topology = new_topology ex_nodes (ex_links 8), task_definitions = ex_defs,
      scheduled_tasks = [(''T0'', new_task ''T0'' ''N0'' 7 17 10),
                         (''T1'', new_task ''T1'' ''N1'' 18 23 5)],
      base_compute_speed = 1\<rparr>"

definition late_final :: sim where
  "late_final = snd (projr (run direct_path late_scheduler))"

text \<open>The same two nodes with a self-loop link at the first one.\<close>

definition loop_links :: "NetworkLink list" where
  "loop_links =
     [\<lparr>source = ''N0'', target = ''N0'', bandwidth = 8, link_type = ''self-loop''\<rparr>,
      \<lparr>source = ''N0'', target = ''N1'', bandwidth = 8, link_type = ''core''\<rparr>]"

section \<open>Termination of the event loop\<close>

text \<open>
  Every popped entry lowers the measure: a process adds entries only by moving to a
  later suspension point, and a condition is triggered once.
\<close>

lemma min_entry_in: "min_entry m xs \<in> set (m # xs)"
  by (induction xs arbitrary: m) (auto split: if_splits)

lemma length_remove1_mem: "m \<in> set q \<Longrightarrow> length q = Suc (length (remove1 m q))"
  by (induction q) auto

lemma pop_Some:
  "pop q = Some (e, q') \<Longrightarrow> e \<in> set q \<and> q' = remove1 e q"
proof (cases q)
  case Nil
  assume "pop q = Some (e, q')"
  with Nil show ?thesis by (simp add: pop_def)
next
  case (Cons x xs)
  assume p: "pop q = Some (e, q')"
  define m where "m = min_entry x xs"
  have "m \<in> set q" using min_entry_in [of x xs] Cons by (simp add: m_def)
  moreover from p Cons have "e = m \<and> q' = remove1 m q"
    by (auto simp: pop_def Let_def m_def)
  ultimately show ?thesis by simp
qed

lemma pop_length: "pop q = Some (e, q') \<Longrightarrow> length q = Suc (length q')"
  using pop_Some [of q e q'] length_remove1_mem [of e q] by simp

lemma sum_map_entry:
  "map_of al k = Some v \<Longrightarrow>
   sum_list (map (\<lambda>kp. g (snd kp)) (AList.map_entry k f al)) + g v
     = sum_list (map (\<lambda>kp. g (snd kp)) al) + (g (f v) :: nat)"
  by (induction al) (auto split: if_splits)

lemma potential_set_task [simp]: "potential (set_task tid f st) = potential st"
  by (simp add: potential_def set_task_def)

lemma potential_schedule [simp]: "potential (schedule e pr d st) = Suc (potential st)"
  by (simp add: potential_def schedule_def)

lemma procs_set_task [simp]: "procs (set_task tid f st) = procs st"
  by (simp add: set_task_def)

lemma procs_schedule [simp]: "procs (schedule e pr d st) = procs st"
  by (simp add: schedule_def)

lemma potential_set_proc:
  "map_of (procs st) tid = Some pr \<Longrightarrow>
   potential (set_proc tid f st) + budget pr = potential st + budget (f pr)"
  using sum_map_entry [of "procs st" tid pr budget f]
  by (simp add: potential_def set_proc_def)

lemma potential_enter_compute:
  assumes "enter_compute S tid me td st = Inr st'" "map_of (procs st) tid = Some pr"
  shows "potential st' + budget pr = potential st + 3"
proof -
  from assms(1) obtain ct where
    st': "st' = set_proc tid (\<lambda>p. p\<lparr>p_phase := AtCompute\<rparr>)
                 (schedule (ComputeTimeout tid) NORMAL ct
                   (set_task tid (\<lambda>t. t\<lparr>compute_time := ct\<rparr>)
                     (set_task tid (\<lambda>t. t\<lparr>actual_start := Some (now st)\<rparr>) st)))"
    by (auto simp: enter_compute_def Let_def split: sum.splits if_splits)
  show ?thesis
    unfolding st'
    using potential_set_proc [of "schedule (ComputeTimeout tid) NORMAL ct
                   (set_task tid (\<lambda>t. t\<lparr>compute_time := ct\<rparr>)
                     (set_task tid (\<lambda>t. t\<lparr>actual_start := Some (now st)\<rparr>) st))" tid pr
                "\<lambda>p. p\<lparr>p_phase := AtCompute\<rparr>"] assms(2)
    by (simp add: budget_def)
qed

lemma potential_enter_transfer:
  assumes "enter_transfer dp S tid me td st = Inr st'" "map_of (procs st) tid = Some pr"
  shows "potential st' + budget pr \<le> potential st + 4"
proof -
  from assms(1) obtain u where
    c: "(u > 0 \<and> st' = set_proc tid (\<lambda>p. p\<lparr>p_phase := AtUplink\<rparr>)
                 (schedule (UplinkTimeout tid) NORMAL u
                   (set_task tid (\<lambda>t. t\<lparr>uplink_time := u\<rparr>)
                     (set_task tid (\<lambda>t. t\<lparr>actual_start := Some (now st)\<rparr>) st))))
        \<or> enter_compute S tid me td (set_task tid (\<lambda>t. t\<lparr>uplink_time := u\<rparr>)
                     (set_task tid (\<lambda>t. t\<lparr>actual_start := Some (now st)\<rparr>) st)) = Inr st'"
    by (auto simp: enter_transfer_def Let_def split: sum.splits if_splits)
  then show ?thesis
  proof
    assume a: "u > 0 \<and> st' = set_proc tid (\<lambda>p. p\<lparr>p_phase := AtUplink\<rparr>)
                 (schedule (UplinkTimeout tid) NORMAL u
                   (set_task tid (\<lambda>t. t\<lparr>uplink_time := u\<rparr>)
                     (set_task tid (\<lambda>t. t\<lparr>actual_start := Some (now st)\<rparr>) st)))"
    show ?thesis
      using potential_set_proc [of "schedule (UplinkTimeout tid) NORMAL u
                   (set_task tid (\<lambda>t. t\<lparr>uplink_time := u\<rparr>)
                     (set_task tid (\<lambda>t. t\<lparr>actual_start := Some (now st)\<rparr>) st))" tid pr
                "\<lambda>p. p\<lparr>p_phase := AtUplink\<rparr>"] assms(2) a
      by (simp add: budget_def)
  next
    assume "enter_compute S tid me td (set_task tid (\<lambda>t. t\<lparr>uplink_time := u\<rparr>)
                     (set_task tid (\<lambda>t. t\<lparr>actual_start := Some (now st)\<rparr>) st)) = Inr st'"
    from potential_enter_compute [OF this, of pr] assms(2) show ?thesis by simp
  qed
qed

lemma potential_start_process:
  assumes "start_process dp S tid me st = Inr st'" "map_of (procs st) tid = Some pr"
    "p_phase pr = AtStart"
  shows "potential st' \<le> potential st"
proof -
  have b: "budget pr = 5" using assms(3) by (simp add: budget_def)
  from assms(1) obtain td where
    td: "map_of (task_definitions S) (get_base_task_id tid) = Some td"
    by (cases "map_of (task_definitions S) (get_base_task_id tid)")
       (simp_all add: start_process_def)
  show ?thesis
  proof (cases "get_predecessors (task_definitions S) (scheduled_tasks S) tid \<noteq> []
             \<and> pred_events S tid \<noteq> []")
    case True
    define tr where "tr = (\<forall>p \<in> set (pred_events S tid). p \<in> set (processed st))"
    from assms(1) td True
    have s: "st' = set_proc tid (\<lambda>p. p\<lparr>p_phase := AtWait, p_triggered := tr\<rparr>)
                          (if tr then schedule (AllOf tid) NORMAL 0 st else st)"
      by (simp add: start_process_def Let_def tr_def)
    show ?thesis
      using potential_set_proc [of "if tr then schedule (AllOf tid) NORMAL 0 st else st" tid pr
          "\<lambda>p. p\<lparr>p_phase := AtWait, p_triggered := tr\<rparr>"] assms(2) b
      unfolding s by (cases tr) (simp_all add: budget_def)
  next
    case False
    with assms(1) td have "enter_transfer dp S tid me td st = Inr st'"
      by (simp add: start_process_def)
    from potential_enter_transfer [OF this assms(2)] b show ?thesis by simp
  qed
qed

lemma potential_finish_task:
  assumes "map_of (procs st) tid = Some pr" "p_phase pr = AtCompute"
  shows "potential (finish_task tid st) = potential st"
proof -
  have b: "budget pr = 2" using assms(2) by (simp add: budget_def)
  show ?thesis
    unfolding finish_task_def Let_def
    using potential_set_proc [of "schedule (ProcessExit tid) NORMAL 0
        (schedule (Completion tid) NORMAL 0
          (set_task tid (\<lambda>t. t\<lparr>actual_end := Some (now st)\<rparr>) st))" tid pr
        "\<lambda>p. p\<lparr>p_phase := Finished\<rparr>"] assms(1) b
    by (simp add: budget_def)
qed

lemma potential_check_condition:
  "potential (check_condition S d w st) = potential st"
proof (cases "map_of (procs st) w")
  case None
  then show ?thesis by (simp add: check_condition_def)
next
  case (Some pr)
  show ?thesis
  proof (cases "p_phase pr = AtWait \<and> \<not> p_triggered pr \<and> d \<in> set (pred_events S w)
             \<and> (\<forall>p \<in> set (pred_events S w). p \<in> set (processed st))")
    case True
    then have b: "budget pr = 5" by (simp add: budget_def)
    from True Some have e: "check_condition S d w st
        = set_proc w (\<lambda>p. p\<lparr>p_triggered := True\<rparr>) (schedule (AllOf w) NORMAL 0 st)"
      by (simp add: check_condition_def)
    show ?thesis
      unfolding e
      using potential_set_proc [of "schedule (AllOf w) NORMAL 0 st" w pr
          "\<lambda>p. p\<lparr>p_triggered := True\<rparr>"] Some b True
      by (simp add: budget_def)
  next
    case False
    with Some show ?thesis by (auto simp add: check_condition_def)
  qed
qed

lemma potential_fold_check:
  "potential (fold (check_condition S d) ws st) = potential st"
  by (induction ws arbitrary: st) (simp_all add: potential_check_condition)

lemma potential_process_completion:
  "potential (process_completion S d st) = potential st"
  by (simp add: process_completion_def potential_fold_check) (simp add: potential_def)

lemma potential_resume:
  assumes "resume dp S tid ph body st = Inr st'"
    and "\<And>me td pr. map_of (procs st) tid = Some pr \<Longrightarrow> p_phase pr = ph \<Longrightarrow>
           body me td st = Inr st' \<Longrightarrow> potential st' \<le> potential st"
  shows "potential st' \<le> potential st"
  using assms by (auto simp: resume_def split: option.splits if_splits)

lemma potential_step:
  assumes "step dp S e st = Inr st'"
  shows "potential st' \<le> potential st"
proof (cases e)
  case (Initialize tid)
  with assms show ?thesis
    by (auto elim!: potential_resume intro: potential_start_process)
next
  case (AllOf tid)
  with assms have r: "resume dp S tid AtWait
       (\<lambda>me td s. case td of None \<Rightarrow> Inl NoTaskDefinition
                   | Some task_def \<Rightarrow> enter_transfer dp S tid me task_def s) st = Inr st'"
    by simp
  show ?thesis
  proof (rule potential_resume [OF r])
    fix me td pr
    assume a: "map_of (procs st) tid = Some pr" "p_phase pr = AtWait"
      "(case td of None \<Rightarrow> Inl NoTaskDefinition
         | Some task_def \<Rightarrow> enter_transfer dp S tid me task_def st) = Inr st'"
    then obtain task_def where "enter_transfer dp S tid me task_def st = Inr st'"
      by (auto split: option.splits)
    from potential_enter_transfer [OF this a(1)] a(2)
    show "potential st' \<le> potential st" by (simp add: budget_def split: if_splits)
  qed
next
  case (UplinkTimeout tid)
  with assms have r: "resume dp S tid AtUplink
       (\<lambda>me td s. case td of None \<Rightarrow> Inl NoTaskDefinition
                   | Some task_def \<Rightarrow> enter_compute S tid me task_def s) st = Inr st'"
    by simp
  show ?thesis
  proof (rule potential_resume [OF r])
    fix me td pr
    assume a: "map_of (procs st) tid = Some pr" "p_phase pr = AtUplink"
      "(case td of None \<Rightarrow> Inl NoTaskDefinition
         | Some task_def \<Rightarrow> enter_compute S tid me task_def st) = Inr st'"
    then obtain task_def where "enter_compute S tid me task_def st = Inr st'"
      by (auto split: option.splits)
    from potential_enter_compute [OF this a(1)] a(2)
    show "potential st' \<le> potential st" by (simp add: budget_def)
  qed
next
  case (ComputeTimeout tid)
  with assms show ?thesis
    by (auto elim!: potential_resume simp: potential_finish_task)
next
  case (Completion tid)
  with assms show ?thesis by (auto simp: potential_process_completion)
next
  case (ProcessExit tid)
  with assms show ?thesis by auto
qed

termination run_loop
proof (relation "measure (\<lambda>(dp, S, st). potential st)")
  show "wf (measure (\<lambda>(dp, S, st). potential st))" by simp
next
  fix dp S st x2 entry q st'
  assume p: "pop (queue st) = Some x2" "(entry, q) = x2"
    and s: "step dp S (snd (snd (snd entry))) (st\<lparr>now := fst entry, queue := q\<rparr>) = Inr st'"
  from p have "length (queue st) = Suc (length q)" by (auto dest: pop_length)
  then have "potential (st\<lparr>now := fst entry, queue := q\<rparr>) < potential st"
    by (simp add: potential_def)
  with potential_step [OF s] show "((dp, S, st'), (dp, S, st)) \<in> measure (\<lambda>(dp, S, st). potential st)"
    by simp
qed

section \<open>Properties of the id and predecessor resolution\<close>

lemma get_predecessors_filter:
  "get_predecessors defs sched sid =
     (case map_of defs (get_base_task_id sid) of None \<Rightarrow> []
      | Some td \<Rightarrow> filter (\<lambda>m. in_dict m sched) (map (mapped_predecessor sid) (predecessors td)))"
  by (auto simp: get_predecessors_def mapped_predecessor_def [abs_def] split: option.splits)

lemma suffix_T1_c6:
  "cell_suffix ''T1_c6'' = Some ''c6''" "get_base_task_id ''T1_c6'' = ''T1''"
  by (simp_all add: cell_suffix_def get_base_task_id_def rsplit_underscore_def startswith_c_def)

text \<open>
  C6. The scheduled id "T0_c6" has base id "T0" and the bare id "T0" is its own base id.
  When the definition of "T1" lists "T0" as a predecessor and "T0_c6" is a key of the
  schedule, "T0_c6" is among the predecessors resolved for "T1_c6". In general the
  resolved predecessors of an instance are the mapped ids of its base task's
  predecessors, in order, with exactly those that are not keys of the schedule left out.
\<close>

theorem partition_suffix_resolution:
  "get_base_task_id ''T0_c6'' = ''T0''
   \<and> get_base_task_id ''T0'' = ''T0''
   \<and> (\<forall>td. map_of defs ''T1'' = Some td \<and> ''T0'' \<in> set (predecessors td)
             \<and> in_dict ''T0_c6'' sched
         \<longrightarrow> ''T0_c6'' \<in> set (get_predecessors defs sched ''T1_c6''))
   \<and> (\<forall>sid td. map_of defs (get_base_task_id sid) = Some td \<longrightarrow>
         get_predecessors defs sched sid =
           filter (\<lambda>m. in_dict m sched) (map (mapped_predecessor sid) (predecessors td)))"
proof (intro conjI allI impI)
  show "get_base_task_id ''T0_c6'' = ''T0''"
    by (simp add: get_base_task_id_def rsplit_underscore_def startswith_c_def)
  show "get_base_task_id ''T0'' = ''T0''"
    by (simp add: get_base_task_id_def rsplit_underscore_def startswith_c_def)
next
  fix td
  assume a: "map_of defs ''T1'' = Some td \<and> ''T0'' \<in> set (predecessors td)
    \<and> in_dict ''T0_c6'' sched"
  have "mapped_predecessor ''T1_c6'' ''T0'' = ''T0_c6''"
    by (simp add: mapped_predecessor_def suffix_T1_c6)
  with a show "''T0_c6'' \<in> set (get_predecessors defs sched ''T1_c6'')"
    by (force simp: get_predecessors_filter suffix_T1_c6)
next
  fix sid td
  assume "map_of defs (get_base_task_id sid) = Some td"
  then show "get_predecessors defs sched sid =
           filter (\<lambda>m. in_dict m sched) (map (mapped_predecessor sid) (predecessors td))"
    by (simp add: get_predecessors_filter)
qed

section \<open>Properties of the topology\<close>

lemma link_map_add_link_self:
  "map_of (link_map (add_link l T)) (n, n) =
     (if source l = n \<and> target l = n then Some l else map_of (link_map T) (n, n))"
  by (auto simp: add_link_def Let_def update_conv')

lemma link_map_fold_self:
  "map_of (link_map (fold add_link ls T)) (n, n) =
     (if self_loops_of n ls = [] then map_of (link_map T) (n, n)
      else Some (last (self_loops_of n ls)))"
proof (induction ls arbitrary: T)
  case Nil
  then show ?case by (simp add: self_loops_of_def)
next
  case (Cons l ls)
  show ?case
    by (simp add: Cons.IH link_map_add_link_self) (simp add: self_loops_of_def)
qed

lemma link_map_new_topology_self:
  "map_of (link_map (new_topology ns ls)) (n, n) =
     (if self_loops_of n ls = [] then None else Some (last (self_loops_of n ls)))"
  by (simp add: new_topology_def build_graph_def link_map_fold_self)

lemma g_adj_add_node [simp]: "g_adj (add_node G n) = g_adj G"
  by (simp add: add_node_def)

lemma no_self_edge_add_link:
  assumes "\<And>u v. has_edge (graph T) u v \<Longrightarrow> u \<noteq> v"
  shows "has_edge (graph (add_link l T)) u v \<Longrightarrow> u \<noteq> v"
  using assms [of u v]
  by (auto simp: add_link_def add_edge_def has_edge_def Let_def update_conv' split: if_splits)

lemma no_self_edge_fold:
  "(\<And>u v. has_edge (graph T) u v \<Longrightarrow> u \<noteq> v) \<Longrightarrow>
   has_edge (graph (fold add_link ls T)) u v \<Longrightarrow> u \<noteq> v"
proof (induction ls arbitrary: T)
  case Nil
  then show ?case by simp
next
  case (Cons l ls)
  show ?case
  proof (rule Cons.IH [of "add_link l T"])
    fix u' v' assume "has_edge (graph (add_link l T)) u' v'"
    then show "u' \<noteq> v'" using no_self_edge_add_link [of T l u' v'] Cons.prems(1) by blast
  next
    from Cons.prems(2) show "has_edge (graph (fold add_link ls (add_link l T))) u v" by simp
  qed
qed

lemma g_adj_fold_add_node:
  "g_adj (fold (\<lambda>(nid, n) G. add_node G nid) ns G) = g_adj G"
  by (induction ns arbitrary: G) (auto)

lemma no_self_edge_new_topology:
  "has_edge (graph (new_topology ns ls)) u v \<Longrightarrow> u \<noteq> v"
  unfolding new_topology_def build_graph_def
  by (rule no_self_edge_fold [where T = "\<lparr>nodes = ns, links = ls, graph = empty_graph, link_map = []\<rparr>
        \<lparr>graph := fold (\<lambda>(nid, n) G. add_node G nid) ns empty_graph\<rparr>" and ls = ls])
     (simp_all add: has_edge_def g_adj_fold_add_node empty_graph_def)

text \<open>
  C7. For every node n and every byte count, \<open>get_transfer_time(n, n, bytes)\<close> is the
  transfer time of the self-loop link at n when the link list has one (the last one, if
  there are several) and 0 otherwise. Every self-loop link of the list is found in the
  link lookup under its pair, and no edge of the path-finding graph joins a vertex
  with itself.
\<close>

theorem self_transfer_time:
  "get_transfer_time dp (new_topology ns ls) n n b =
     (if self_loops_of n ls = [] then Inr 0
      else link_get_transfer_time (last (self_loops_of n ls)) b)
   \<and> (\<forall>l \<in> set ls. source l = target l \<longrightarrow>
         get_link (new_topology ns ls) (source l) (target l)
           = Some (last (self_loops_of (source l) ls)))
   \<and> (\<forall>u v. has_edge (graph (new_topology ns ls)) u v \<longrightarrow> u \<noteq> v)"
proof (intro conjI ballI allI impI)
  show "get_transfer_time dp (new_topology ns ls) n n b =
     (if self_loops_of n ls = [] then Inr 0
      else link_get_transfer_time (last (self_loops_of n ls)) b)"
    by (simp add: get_transfer_time_def link_map_new_topology_self)
next
  fix l assume l: "l \<in> set ls" "source l = target l"
  then have "self_loops_of (source l) ls \<noteq> []"
    by (auto simp: self_loops_of_def filter_empty_conv)
  with l show "get_link (new_topology ns ls) (source l) (target l)
           = Some (last (self_loops_of (source l) ls))"
    using link_map_new_topology_self [of ns ls "source l"] by (simp add: get_link_def)
next
  fix u v assume "has_edge (graph (new_topology ns ls)) u v"
  then show "u \<noteq> v" by (rule no_self_edge_new_topology)
qed



lemma new_topology_fold:
  "new_topology ns ls =
     fold add_link ls
       \<lparr>nodes = ns, links = ls, graph = fold (\<lambda>(nid, n) G. add_node G nid) ns empty_graph,
        link_map = []\<rparr>"
  by (simp add: new_topology_def build_graph_def)








lemma g_nodes_add_node: "set (g_nodes (add_node G n)) = insert n (set (g_nodes G))"
  by (auto simp: add_node_def)

lemma graph_ok_add_link: "graph_ok T \<Longrightarrow> graph_ok (add_link l T)"
  unfolding graph_ok_def
  by (auto simp: add_link_def add_edge_def Let_def update_conv' g_nodes_add_node
      inverse_bandwidth_def split: if_splits)

lemma graph_ok_fold: "graph_ok T \<Longrightarrow> graph_ok (fold add_link ls T)"
  by (induction ls arbitrary: T) (simp_all add: graph_ok_add_link)

lemma graph_ok_new_topology: "graph_ok (new_topology ns ls)"
  unfolding new_topology_fold
  by (rule graph_ok_fold) (simp add: graph_ok_def g_adj_fold_add_node empty_graph_def)

lemma g_nodes_add_link:
  "set (g_nodes (graph (add_link l T))) =
     set (g_nodes (graph T)) \<union> (if source l = target l then {} else {source l, target l})"
  by (auto simp: add_link_def add_edge_def Let_def g_nodes_add_node)

lemma g_nodes_fold_add_link:
  "set (g_nodes (graph (fold add_link ls T))) =
     set (g_nodes (graph T))
       \<union> {x. \<exists>l \<in> set ls. source l \<noteq> target l \<and> (x = source l \<or> x = target l)}"
  by (induction ls arbitrary: T) (auto simp: g_nodes_add_link split: if_splits)

lemma g_nodes_fold_add_node:
  "set (g_nodes (fold (\<lambda>(nid, n) G. add_node G nid) ns G)) = set (g_nodes G) \<union> fst ` set ns"
  by (induction ns arbitrary: G) (auto simp: g_nodes_add_node)

lemma vertices_new_topology:
  "set (g_nodes (graph (new_topology ns ls))) =
     fst ` set ns \<union> {x. \<exists>l \<in> set ls. source l \<noteq> target l \<and> (x = source l \<or> x = target l)}"
  by (simp add: new_topology_fold g_nodes_fold_add_link g_nodes_fold_add_node empty_graph_def)

lemma last_pair_in_path_edges:
  assumes "length q \<ge> 2"
  shows "(q ! (length q - 2), last q) \<in> set (path_edges q)"
proof -
  have "length q - 2 < length q" "length q - 2 < length (tl q)" using assms by simp_all
  moreover have "tl q ! (length q - 2) = last q"
  proof -
    have "q \<noteq> []" using assms by auto
    then have "last q = q ! (length q - 1)" by (rule last_conv_nth)
    moreover have "Suc (length q - 2) = length q - 1" using assms by simp
    ultimately show ?thesis using assms by (simp add: nth_tl)
  qed
  ultimately show ?thesis
    unfolding path_edges_def in_set_zip by (intro exI [of _ "length q - 2"]) simp
qed

lemma first_pair_in_path_edges:
  assumes "length q \<ge> 2"
  shows "(hd q, q ! 1) \<in> set (path_edges q)"
proof -
  from assms obtain x y r where "q = x # y # r"
    by (cases q; cases "tl q") auto
  then show ?thesis by (simp add: path_edges_def)
qed

lemma path_length:
  assumes "is_path G s t q" "s \<noteq> t"
  shows "length q \<ge> 2"
proof -
  from assms have "q \<noteq> []" "hd q \<noteq> last q" by (auto simp: is_path_def)
  then show ?thesis by (cases q; cases "tl q") auto
qed

lemma path_endpoints_are_vertices:
  assumes "graph_ok T" "is_path (graph T) s t q" "s \<noteq> t"
  shows "s \<in> set (g_nodes (graph T)) \<and> t \<in> set (g_nodes (graph T))"
proof -
  have l: "length q \<ge> 2" using assms(2,3) by (rule path_length)
  from assms(2) first_pair_in_path_edges [OF l] have "has_edge (graph T) s (q ! 1)"
    by (auto simp: is_path_def)
  moreover from assms(2) last_pair_in_path_edges [OF l]
  have "has_edge (graph T) (q ! (length q - 2)) t"
    by (auto simp: is_path_def)
  ultimately show ?thesis
    using assms(1) unfolding graph_ok_def has_edge_def by blast
qed

text \<open>
  C8, as the code has it. \<open>get_path(s, s)\<close> is the single-vertex list [s], whether or not
  s is a node. For distinct s and t, and with \<open>nx.dijkstra_path\<close> keeping its documented
  contract at the call: a returned list is a path from s to t of least total weight in
  the graph; one is returned whenever a path exists; the call fails with NodeNotFound
  when s is not a vertex of the graph, and with NoPath when s is a vertex and t is not
  or no path joins them. The vertices of the graph are the compute nodes together with
  the endpoints of the links that are not self-loops, and the weight of every edge is
  the inverse bandwidth of the link that the lookup holds for the pair.
\<close>

theorem get_path_result:
  "(s = t \<longrightarrow> get_path dp (new_topology ns ls) s t = Inr [s])
   \<and> (s \<noteq> t \<and> dijkstra_contract dp (graph (new_topology ns ls)) s t \<longrightarrow>
        (\<forall>p. get_path dp (new_topology ns ls) s t = Inr p \<longrightarrow>
           is_path (graph (new_topology ns ls)) s t p
           \<and> (\<forall>q. is_path (graph (new_topology ns ls)) s t q \<longrightarrow>
                 weight_le (path_weight (graph (new_topology ns ls)) p)
                           (path_weight (graph (new_topology ns ls)) q)))
        \<and> ((\<exists>q. is_path (graph (new_topology ns ls)) s t q) \<longrightarrow>
             (\<exists>p. get_path dp (new_topology ns ls) s t = Inr p))
        \<and> (s \<notin> set (g_nodes (graph (new_topology ns ls))) \<longrightarrow>
             get_path dp (new_topology ns ls) s t = Inl NodeNotFoundError)
        \<and> (s \<in> set (g_nodes (graph (new_topology ns ls)))
             \<and> (t \<notin> set (g_nodes (graph (new_topology ns ls)))
                 \<or> (\<forall>q. \<not> is_path (graph (new_topology ns ls)) s t q)) \<longrightarrow>
             get_path dp (new_topology ns ls) s t = Inl NoPathExists))
   \<and> set (g_nodes (graph (new_topology ns ls))) =
        fst ` set ns \<union> {x. \<exists>l \<in> set ls. source l \<noteq> target l \<and> (x = source l \<or> x = target l)}
   \<and> (\<forall>u v d. map_of (g_adj (graph (new_topology ns ls))) (u, v) = Some d \<longrightarrow>
         e_weight d = inverse_bandwidth (e_link d)
         \<and> get_link (new_topology ns ls) u v = Some (e_link d))"
proof -
  let ?T = "new_topology ns ls"
  let ?G = "graph ?T"
  have ok: "graph_ok ?T" by (rule graph_ok_new_topology)
  have a: "s = t \<longrightarrow> get_path dp ?T s t = Inr [s]" by (simp add: get_path_def)
  have d: "\<forall>u v d. map_of (g_adj ?G) (u, v) = Some d \<longrightarrow>
         e_weight d = inverse_bandwidth (e_link d) \<and> get_link ?T u v = Some (e_link d)"
    using ok unfolding graph_ok_def get_link_def by blast
  have b: "(\<forall>p. get_path dp ?T s t = Inr p \<longrightarrow>
           is_path ?G s t p
           \<and> (\<forall>q. is_path ?G s t q \<longrightarrow> weight_le (path_weight ?G p) (path_weight ?G q)))
        \<and> ((\<exists>q. is_path ?G s t q) \<longrightarrow> (\<exists>p. get_path dp ?T s t = Inr p))
        \<and> (s \<notin> set (g_nodes ?G) \<longrightarrow> get_path dp ?T s t = Inl NodeNotFoundError)
        \<and> (s \<in> set (g_nodes ?G) \<and> (t \<notin> set (g_nodes ?G) \<or> (\<forall>q. \<not> is_path ?G s t q)) \<longrightarrow>
             get_path dp ?T s t = Inl NoPathExists)"
    if st: "s \<noteq> t" and c: "dijkstra_contract dp ?G s t"
  proof -
    have v: "s \<in> set (g_nodes ?G) \<and> t \<in> set (g_nodes ?G)" if "is_path ?G s t q" for q
      using path_endpoints_are_vertices [OF ok that st] .
    show ?thesis
    proof (cases "dp ?G s t")
      case (Inl e)
      show ?thesis
      proof (cases e)
        case NetworkXNoPath
        with Inl c st v show ?thesis
          by (auto simp: dijkstra_contract_def get_path_def)
      next
        case NodeNotFound
        with Inl c st v show ?thesis
          by (auto simp: dijkstra_contract_def get_path_def)
      qed
    next
      case (Inr p)
      with c st v show ?thesis
        by (auto simp: dijkstra_contract_def get_path_def)
    qed
  qed
  from a b d vertices_new_topology [of ns ls] show ?thesis by blast
qed

section \<open>Properties of the loader\<close>

lemma lookup_list_Nil: "lookup_list [] b = []"
  by (simp add: lookup_list_def)

lemma lookup_append_pred:
  "lookup_list (append_pred src dst preds) b =
     lookup_list preds b @ (if dst = b then [src] else [])"
  by (simp add: lookup_list_def append_pred_def update_conv')

lemma lookup_fold_append_pred:
  "lookup_list (fold (append_pred src) succs preds) b =
     lookup_list preds b @ map (\<lambda>_. src) (filter (\<lambda>d. d = b) succs)"
  by (induction succs arbitrary: preds) (simp_all add: lookup_append_pred)

lemma lookup_fold_edges:
  "lookup_list (fold (\<lambda>(src, succs) preds. fold (append_pred src) succs preds) es preds) b =
     lookup_list preds b
       @ concat (map (\<lambda>(src, succs). map (\<lambda>_. src) (filter (\<lambda>d. d = b) succs)) es)"
  by (induction es arbitrary: preds) (auto simp: lookup_fold_append_pred)

lemma lookup_fold_init:
  "lookup_list preds b = [] \<Longrightarrow>
   lookup_list (fold (\<lambda>(tid, cost) preds. AList.update tid [] preds) nw preds) b = []"
  by (induction nw arbitrary: preds) (auto simp: lookup_list_def update_conv')

lemma set_build_predecessors:
  "set (lookup_list (build_predecessors d) b) =
     {src. \<exists>succs. (src, succs) \<in> set (dag_edges d) \<and> b \<in> set succs}"
  by (auto simp: build_predecessors_def lookup_fold_edges lookup_fold_init lookup_list_Nil)

lemma map_of_fold_update:
  "map_of (fold (\<lambda>(tid, cost) tasks. AList.update tid (F tid cost) tasks) nw init) a = Some ta \<Longrightarrow>
   map_of init a = Some ta \<or> (\<exists>cost. ta = F a cost)"
proof (induction nw arbitrary: init)
  case Nil
  then show ?case by simp
next
  case (Cons x nw)
  obtain tid cost where x: "x = (tid, cost)" by (cases x)
  from Cons.prems x have
    "map_of (fold (\<lambda>(tid, cost) tasks. AList.update tid (F tid cost) tasks) nw
        (AList.update tid (F tid cost) init)) a = Some ta" by simp
  from Cons.IH [OF this] show ?case
    by (auto simp: update_conv' split: if_splits)
qed

lemma load_dag_fields:
  assumes "map_of (load_dag d) a = Some ta"
  shows "successors ta = lookup_list (dag_edges d) a"
    and "predecessors ta = lookup_list (build_predecessors d) a"
proof -
  define F where "F = (\<lambda>tid (cost :: real).
     \<lparr>td_task_id = tid, compute_cost = cost,
      successors = (case map_of (dag_edges d) tid of None \<Rightarrow> [] | Some ss \<Rightarrow> ss),
      predecessors = (case map_of (build_predecessors d) tid of None \<Rightarrow> [] | Some ps \<Rightarrow> ps),
      edge_weights = (case map_of (fold add_edge_weight (edge_weights_raw d) []) tid of
                        None \<Rightarrow> [] | Some e \<Rightarrow> e)\<rparr>)"
  have "load_dag d = fold (\<lambda>(tid, cost) tasks. AList.update tid (F tid cost) tasks) (node_weights d) []"
    by (simp add: load_dag_def Let_def F_def)
  with assms map_of_fold_update [of F "node_weights d" "[]" a ta]
  obtain cost where "ta = F a cost" by auto
  then show "successors ta = lookup_list (dag_edges d) a"
    and "predecessors ta = lookup_list (build_predecessors d) a"
    by (simp_all add: F_def lookup_list_def)
qed

text \<open>
  C9. For the task definitions that \<open>load_dag\<close> builds from a document (whose
  \<open>edges\<close> dictionary has each key once, as every dictionary has), and for any two loaded
  tasks A and B: B lists A as a predecessor if and only if A lists B as a successor.
\<close>

theorem predecessors_inverse_of_successors:
  assumes "distinct (map fst (dag_edges d))"
    and "map_of (load_dag d) a = Some ta"
    and "map_of (load_dag d) b = Some tb"
  shows "a \<in> set (predecessors tb) \<longleftrightarrow> b \<in> set (successors ta)"
proof -
  have "a \<in> set (predecessors tb) \<longleftrightarrow> (\<exists>succs. (a, succs) \<in> set (dag_edges d) \<and> b \<in> set succs)"
    using load_dag_fields(2) [OF assms(3)] set_build_predecessors [of d b] by simp
  also have "\<dots> \<longleftrightarrow> (\<exists>succs. map_of (dag_edges d) a = Some succs \<and> b \<in> set succs)"
    using assms(1) by (auto dest: map_of_SomeD)
  also have "\<dots> \<longleftrightarrow> b \<in> set (lookup_list (dag_edges d) a)"
    by (cases "map_of (dag_edges d) a") (auto simp: lookup_list_def)
  also have "\<dots> \<longleftrightarrow> b \<in> set (successors ta)"
    using load_dag_fields(1) [OF assms(2)] by simp
  finally show ?thesis .
qed

lemma load_ex_dag: "load_dag ex_dag = ex_defs"
  by code_simp

theorem predecessors_inverse_of_successors_witness:
  "distinct (map fst (dag_edges ex_dag))
   \<and> map_of (load_dag ex_dag) ''T0'' = Some (snd (ex_defs ! 0))
   \<and> map_of (load_dag ex_dag) ''T1'' = Some (snd (ex_defs ! 1))
   \<and> ''T0'' \<in> set (predecessors (snd (ex_defs ! 1)))
   \<and> ''T1'' \<in> set (successors (snd (ex_defs ! 0)))
   \<and> ''T1'' \<notin> set (predecessors (snd (ex_defs ! 0)))
   \<and> ''T0'' \<notin> set (successors (snd (ex_defs ! 1)))"
proof -
  have d: "distinct (map fst (dag_edges ex_dag))" by (simp add: ex_dag_def)
  have a: "map_of (load_dag ex_dag) ''T0'' = Some (snd (ex_defs ! 0))"
    by (simp add: load_ex_dag) (simp add: ex_defs_def)
  have b: "map_of (load_dag ex_dag) ''T1'' = Some (snd (ex_defs ! 1))"
    by (simp add: load_ex_dag) (simp add: ex_defs_def)
  have s: "''T1'' \<in> set (successors (snd (ex_defs ! 0)))"
    "''T0'' \<notin> set (successors (snd (ex_defs ! 1)))"
    by (simp_all add: ex_defs_def)
  from predecessors_inverse_of_successors [OF d a b] predecessors_inverse_of_successors [OF d b a] s
  show ?thesis using d a b by simp
qed

section \<open>Instances on the example inputs\<close>

theorem partition_suffix_resolution_witness:
  "''T0_c6'' \<in> set (get_predecessors ex_defs cell_schedule ''T1_c6'')
   \<and> get_predecessors ex_defs (tl cell_schedule) ''T1_c6'' = []
   \<and> get_predecessors ex_defs ex_schedule ''T1'' = [''T0'']"
proof -
  have a: "map_of ex_defs ''T1'' = Some (snd (ex_defs ! 1))
      \<and> ''T0'' \<in> set (predecessors (snd (ex_defs ! 1))) \<and> in_dict ''T0_c6'' cell_schedule"
    by (simp add: ex_defs_def cell_schedule_def in_dict_def)
  have b: "map_of ex_defs (get_base_task_id ''T1_c6'') = Some (snd (ex_defs ! 1))"
    "map_of ex_defs (get_base_task_id ''T1'') = Some (snd (ex_defs ! 1))"
    by (simp_all add: ex_defs_def get_base_task_id_def rsplit_underscore_def startswith_c_def)
  have c: "filter (\<lambda>m. in_dict m (tl cell_schedule))
             (map (mapped_predecessor ''T1_c6'') (predecessors (snd (ex_defs ! 1)))) = []"
    "filter (\<lambda>m. in_dict m ex_schedule)
             (map (mapped_predecessor ''T1'') (predecessors (snd (ex_defs ! 1)))) = [''T0'']"
    by (simp_all add: ex_defs_def cell_schedule_def ex_schedule_def in_dict_def mapped_predecessor_def
        cell_suffix_def rsplit_underscore_def startswith_c_def)
  from partition_suffix_resolution [of ex_defs cell_schedule] a
  have "''T0_c6'' \<in> set (get_predecessors ex_defs cell_schedule ''T1_c6'')" by blast
  moreover from partition_suffix_resolution [of ex_defs "tl cell_schedule"] b(1) c(1)
  have "get_predecessors ex_defs (tl cell_schedule) ''T1_c6'' = []" by simp
  moreover from partition_suffix_resolution [of ex_defs ex_schedule] b(2) c(2)
  have "get_predecessors ex_defs ex_schedule ''T1'' = [''T0'']" by simp
  ultimately show ?thesis by simp
qed

theorem self_transfer_time_witness:
  "get_transfer_time direct_path (new_topology ex_nodes loop_links) ''N0'' ''N0'' 1000000 = Inr 1
   \<and> get_transfer_time direct_path (new_topology ex_nodes loop_links) ''N1'' ''N1'' 1000000 = Inr 0
   \<and> get_link (new_topology ex_nodes loop_links) ''N0'' ''N0'' = Some (hd loop_links)
   \<and> \<not> has_edge (graph (new_topology ex_nodes loop_links)) ''N0'' ''N0''"
proof -
  note t0 = self_transfer_time [of direct_path ex_nodes loop_links "''N0''" 1000000]
  note t1 = self_transfer_time [of direct_path ex_nodes loop_links "''N1''" 1000000]
  have s: "self_loops_of ''N0'' loop_links = [hd loop_links]" "self_loops_of ''N1'' loop_links = []"
    by (simp_all add: self_loops_of_def loop_links_def)
  have l: "hd loop_links \<in> set loop_links" "source (hd loop_links) = ''N0''"
    "target (hd loop_links) = ''N0''"
    by (simp_all add: loop_links_def)
  have v: "link_get_transfer_time (hd loop_links) 1000000 = Inr 1"
    by (simp add: loop_links_def link_get_transfer_time_def)
  from t0 s v have "get_transfer_time direct_path (new_topology ex_nodes loop_links) ''N0'' ''N0'' 1000000 = Inr 1"
    by simp
  moreover from t1 s have "get_transfer_time direct_path (new_topology ex_nodes loop_links) ''N1'' ''N1'' 1000000 = Inr 0"
    by simp
  moreover from t0 l s have "get_link (new_topology ex_nodes loop_links) ''N0'' ''N0'' = Some (hd loop_links)"
    by (metis last.simps)
  moreover from t0 have "\<not> has_edge (graph (new_topology ex_nodes loop_links)) ''N0'' ''N0''"
    by blast
  ultimately show ?thesis by simp
qed

lemma ex_topology:
  "0 < bw \<Longrightarrow> new_topology ex_nodes (ex_links bw) =
    \<lparr>nodes = ex_nodes, links = ex_links bw,
     graph = \<lparr>g_nodes = [''N0'', ''N1''],
              g_adj = [((''N0'', ''N1''), \<lparr>e_weight = Finite (1 / bw), e_link = hd (ex_links bw)\<rparr>),
                       ((''N1'', ''N0''), \<lparr>e_weight = Finite (1 / bw), e_link = hd (ex_links bw)\<rparr>)]\<rparr>,
     link_map = [((''N0'', ''N1''), hd (ex_links bw)), ((''N1'', ''N0''), hd (ex_links bw))]\<rparr>"
  by (simp add: new_topology_def build_graph_def add_link_def add_edge_def add_node_def
      empty_graph_def ex_nodes_def ex_links_def Let_def)


text \<open>
  Against C8 as stated: "ghost" is neither a compute node nor a vertex of the graph, and
  \<open>get_path("ghost", "ghost")\<close> returns ["ghost"] without an error; with an empty node
  dictionary and one link from "N0" to "N1", \<open>get_path("N0", "N1")\<close> returns the path
  although neither endpoint is a compute node.
\<close>

theorem get_path_absent_endpoint_counterexample:
  "''ghost'' \<notin> set (map fst ex_nodes)
   \<and> ''ghost'' \<notin> set (g_nodes (graph (new_topology ex_nodes (ex_links 8))))
   \<and> get_path direct_path (new_topology ex_nodes (ex_links 8)) ''ghost'' ''ghost'' = Inr [''ghost'']
   \<and> ''N0'' \<notin> set (map fst [])
   \<and> get_path direct_path (new_topology [] (ex_links 8)) ''N0'' ''N1'' = Inr [''N0'', ''N1'']"
  by code_simp

lemma weight_le_add:
  "weight_le (Finite 0) w \<Longrightarrow> weight_le a (weight_add a w)"
  by (cases a; cases w) simp_all

lemma weight_add_nonneg:
  "weight_le (Finite 0) a \<Longrightarrow> weight_le (Finite 0) w \<Longrightarrow> weight_le (Finite 0) (weight_add a w)"
  by (cases a; cases w) simp_all

lemma foldr_weight_nonneg:
  "(\<And>u v. weight_le (Finite 0) (edge_weight G u v)) \<Longrightarrow>
   weight_le (Finite 0) (foldr (\<lambda>(u, v) w. weight_add (edge_weight G u v) w) es (Finite 0))"
  by (induction es) (auto intro: weight_add_nonneg)

lemma path_weight_Cons:
  "path_weight G (x # y # r) = weight_add (edge_weight G x y) (path_weight G (y # r))"
  by (simp add: path_weight_def path_edges_def)

lemma ex_contract:
  "dijkstra_contract direct_path (graph (new_topology ex_nodes (ex_links 8))) ''N0'' ''N1''"
proof -
  define G where "G = graph (new_topology ex_nodes (ex_links 8))"
  have G: "G = \<lparr>g_nodes = [''N0'', ''N1''],
              g_adj = [((''N0'', ''N1''), \<lparr>e_weight = Finite (1 / 8), e_link = hd (ex_links 8)\<rparr>),
                       ((''N1'', ''N0''), \<lparr>e_weight = Finite (1 / 8), e_link = hd (ex_links 8)\<rparr>)]\<rparr>"
    by (simp add: G_def ex_topology)
  have nn: "weight_le (Finite 0) (edge_weight G u v)" for u v
    by (simp add: G edge_weight_def)
  have dp: "direct_path G ''N0'' ''N1'' = Inr [''N0'', ''N1'']"
    by (simp add: G direct_path_def has_edge_def)
  have ip: "is_path G ''N0'' ''N1'' [''N0'', ''N1'']"
    by (simp add: G is_path_def path_edges_def has_edge_def)
  have w: "path_weight G [''N0'', ''N1''] = Finite (1 / 8)"
    by (simp add: G path_weight_def path_edges_def edge_weight_def)
  have m: "weight_le (Finite (1 / 8)) (path_weight G q)" if q: "is_path G ''N0'' ''N1'' q" for q
  proof -
    have "length q \<ge> 2" using q by (rule path_length) simp
    then obtain x y r where qq: "q = x # y # r" by (cases q; cases "tl q") auto
    with q have x: "x = ''N0''" and e: "has_edge G x y" by (auto simp: is_path_def path_edges_def)
    from e x have y: "y = ''N1''" by (auto simp: G has_edge_def split: if_splits)
    have ew: "edge_weight G x y = Finite (1 / 8)" by (simp add: x y G edge_weight_def)
    have "weight_le (Finite 0) (path_weight G (y # r))"
      unfolding path_weight_def by (rule foldr_weight_nonneg) (rule nn)
    then show ?thesis unfolding qq path_weight_Cons ew by (rule weight_le_add)
  qed
  show ?thesis
    unfolding dijkstra_contract_def G_def [symmetric] dp using ip w m by (simp add: G)
qed

lemma no_links_contract:
  "dijkstra_contract direct_path (graph (new_topology ex_nodes [])) ''N0'' ''N1''"
proof -
  define G where "G = graph (new_topology ex_nodes [])"
  have G: "G = \<lparr>g_nodes = [''N0'', ''N1''], g_adj = []\<rparr>"
    by (simp add: G_def new_topology_def build_graph_def add_node_def ex_nodes_def empty_graph_def)
  have dp: "direct_path G ''N0'' ''N1'' = Inl NetworkXNoPath"
    by (simp add: G direct_path_def has_edge_def)
  have "\<not> is_path G ''N0'' ''N1'' q" for q
  proof
    assume q: "is_path G ''N0'' ''N1'' q"
    then have "length q \<ge> 2" by (rule path_length) simp
    from first_pair_in_path_edges [OF this] q have "has_edge G (hd q) (q ! 1)"
      by (auto simp: is_path_def)
    then show False by (simp add: G has_edge_def)
  qed
  then show ?thesis
    unfolding dijkstra_contract_def G_def [symmetric] dp by (simp add: G)
qed

theorem get_path_result_witness:
  "get_path direct_path (new_topology ex_nodes (ex_links 8)) ''N0'' ''N0'' = Inr [''N0'']
   \<and> ''N0'' \<noteq> ''N1''
   \<and> dijkstra_contract direct_path (graph (new_topology ex_nodes (ex_links 8))) ''N0'' ''N1''
   \<and> get_path direct_path (new_topology ex_nodes (ex_links 8)) ''N0'' ''N1'' = Inr [''N0'', ''N1'']
   \<and> is_path (graph (new_topology ex_nodes (ex_links 8))) ''N0'' ''N1'' [''N0'', ''N1'']
   \<and> dijkstra_contract direct_path (graph (new_topology ex_nodes [])) ''N0'' ''N1''
   \<and> get_path direct_path (new_topology ex_nodes []) ''N0'' ''N1'' = Inl NoPathExists"
proof -
  have n: "''N0'' \<noteq> ''N1''" by simp
  have g: "get_path direct_path (new_topology ex_nodes (ex_links 8)) ''N0'' ''N1'' = Inr [''N0'', ''N1'']"
    by (simp add: ex_topology get_path_def direct_path_def has_edge_def)
  have v: "''N0'' \<in> set (g_nodes (graph (new_topology ex_nodes [])))"
    by (simp add: new_topology_def build_graph_def add_node_def ex_nodes_def empty_graph_def)
  have np: "\<forall>q. \<not> is_path (graph (new_topology ex_nodes [])) ''N0'' ''N1'' q"
    using no_links_contract
    by (simp add: dijkstra_contract_def direct_path_def v has_edge_def new_topology_def
        build_graph_def add_node_def ex_nodes_def empty_graph_def)
  from get_path_result [of "''N0''" "''N0''" direct_path ex_nodes "ex_links 8"]
  have "get_path direct_path (new_topology ex_nodes (ex_links 8)) ''N0'' ''N0'' = Inr [''N0'']"
    by blast
  moreover from get_path_result [of "''N0''" "''N1''" direct_path ex_nodes "ex_links 8"] n ex_contract g
  have "is_path (graph (new_topology ex_nodes (ex_links 8))) ''N0'' ''N1'' [''N0'', ''N1'']"
    by blast
  moreover from get_path_result [of "''N0''" "''N1''" direct_path ex_nodes "[]"] n no_links_contract v np
  have "get_path direct_path (new_topology ex_nodes []) ''N0'' ''N1'' = Inl NoPathExists"
    by blast
  ultimately show ?thesis using n g ex_contract no_links_contract by simp
qed

section \<open>The replay on the example inputs, and the makespan\<close>

lemma ex_run_mbps:
  "outcome (run direct_path (ex_scheduler 8)) =
     Inr (16, [(''T0'', Some 0, Some 10, 0, 10), (''T1'', Some 11, Some 16, 1, 5)])"
  by code_simp

lemma ex_run_bits:
  "outcome (run direct_path (ex_scheduler 8000000)) =
     Inr (15000001 / 1000000,
          [(''T0'', Some 0, Some 10, 0, 10),
           (''T1'', Some (10000001 / 1000000), Some (15000001 / 1000000), 1 / 1000000, 5)])"
  by code_simp

lemma cyc_run:
  "outcome (run direct_path cyc_scheduler) =
     Inr (2, [(''A'', None, None, 0, 0), (''B'', None, None, 0, 0), (''C'', Some 0, Some 2, 0, 2)])"
  by code_simp

text \<open>
  Against C1 as stated: with the bandwidth field 8,000,000 the uplink of T1 is one
  millionth of a time unit and the makespan 15.000001, not 1 and 16.
\<close>

theorem end_to_end_counterexample:
  "outcome (run direct_path (ex_scheduler 8000000)) =
     Inr (15000001 / 1000000,
          [(''T0'', Some 0, Some 10, 0, 10),
           (''T1'', Some (10000001 / 1000000), Some (15000001 / 1000000), 1 / 1000000, 5)])
   \<and> outcome (run direct_path (ex_scheduler 8000000)) \<noteq>
     Inr (16, [(''T0'', Some 0, Some 10, 0, 10), (''T1'', Some 11, Some 16, 1, 5)])"
  using ex_run_bits by simp

text \<open>
  C1, as the code has it. The bandwidth field of a link is in Mbps: the transfer time
  for N bytes is N / (bandwidth * 10^6 / 8), and a bandwidth that is not positive
  raises. In the end-to-end scenario a link of 1,000,000 bytes per time unit has the
  bandwidth field 8; with it the replay gives T0 compute_time 10, T1 uplink_time 1,
  T1 compute_time 5 and the makespan 16. With the field 8,000,000 the uplink is
  0.000001 and the makespan 15.000001.
\<close>

theorem end_to_end_scenario:
  "outcome (run direct_path (ex_scheduler 8)) =
     Inr (16, [(''T0'', Some 0, Some 10, 0, 10), (''T1'', Some 11, Some 16, 1, 5)])
   \<and> outcome (run direct_path (ex_scheduler 8000000)) =
     Inr (15000001 / 1000000,
          [(''T0'', Some 0, Some 10, 0, 10),
           (''T1'', Some (10000001 / 1000000), Some (15000001 / 1000000), 1 / 1000000, 5)])
   \<and> (\<forall>l n. 0 < bandwidth l \<longrightarrow>
         link_get_transfer_time l n = Inr (n / (bandwidth l * 1000000 / 8)))
   \<and> (\<forall>l n. bandwidth l \<le> 0 \<longrightarrow> link_get_transfer_time l n = Inl InvalidBandwidth)"
  using ex_run_mbps ex_run_bits by (simp add: link_get_transfer_time_def)

theorem end_to_end_scenario_witness:
  "0 < bandwidth (hd (ex_links 8))
   \<and> link_get_transfer_time (hd (ex_links 8)) 1000000 = Inr 1
   \<and> bandwidth (hd (ex_links 0)) \<le> 0
   \<and> link_get_transfer_time (hd (ex_links 0)) 1000000 = Inl InvalidBandwidth"
proof -
  have a: "0 < bandwidth (hd (ex_links 8))" "bandwidth (hd (ex_links 0)) \<le> 0"
    by (simp_all add: ex_links_def)
  from end_to_end_scenario a(1)
  have "link_get_transfer_time (hd (ex_links 8)) 1000000
      = Inr (1000000 / (bandwidth (hd (ex_links 8)) * 1000000 / 8))" by blast
  then have b: "link_get_transfer_time (hd (ex_links 8)) 1000000 = Inr 1"
    by (simp add: ex_links_def)
  from end_to_end_scenario a(2)
  have "link_get_transfer_time (hd (ex_links 0)) 1000000 = Inl InvalidBandwidth" by blast
  with a b show ?thesis by simp
qed

text \<open>
  Against C2 as stated: A and B wait for each other and never record an
  \<open>actual_end\<close>; \<open>run()\<close> returns 2, the end of C, and reports nothing.
\<close>

theorem unfinished_tasks_counterexample:
  "outcome (run direct_path cyc_scheduler) =
     Inr (2, [(''A'', None, None, 0, 0), (''B'', None, None, 0, 0), (''C'', Some 0, Some 2, 0, 2)])"
  using cyc_run by simp

lemma max_list_Max: "xs \<noteq> [] \<Longrightarrow> max_list xs = Max (set xs)"
  by (induction xs rule: max_list.induct) (simp_all add: max.commute)

lemma set_recorded_ends:
  "set (recorded_ends st) = {e. \<exists>k t. (k, t) \<in> set (tasks st) \<and> actual_end t = Some e}"
  by (force simp: recorded_ends_def List.map_filter_def)

section \<open>The event loop keeps the invariant\<close>

subsection \<open>Accessors over the primitive updates\<close>

lemma task_of_set_task:
  "task_of (set_task k f st) tid = (if tid = k then map_option f (task_of st k) else task_of st tid)"
  by (auto simp: task_of_def set_task_def map_of_map_entry split: option.splits)

lemma phase_of_set_proc:
  "phase_of (set_proc k f st) tid =
     (if tid = k then map_option (\<lambda>p. p_phase (f p)) (map_of (procs st) k) else phase_of st tid)"
  by (auto simp: phase_of_def set_proc_def map_of_map_entry split: option.splits)

lemma set_task_simps [simp]:
  "now (set_task k f st) = now st" "queue (set_task k f st) = queue st"
  "processed (set_task k f st) = processed st" "procs (set_task k f st) = procs st"
  "eid (set_task k f st) = eid st" "evs (set_task k f st) = evs st"
  "phase_of (set_task k f st) = phase_of st"
  by (simp_all add: set_task_def evs_def phase_of_def fun_eq_iff)

lemma set_proc_simps [simp]:
  "now (set_proc k f st) = now st" "queue (set_proc k f st) = queue st"
  "processed (set_proc k f st) = processed st" "tasks (set_proc k f st) = tasks st"
  "eid (set_proc k f st) = eid st" "evs (set_proc k f st) = evs st"
  "task_of (set_proc k f st) = task_of st"
  by (simp_all add: set_proc_def evs_def task_of_def fun_eq_iff)

lemma schedule_simps [simp]:
  "now (schedule e pr d st) = now st"
  "queue (schedule e pr d st) = queue st @ [(now st + d, pr, eid st, e)]"
  "processed (schedule e pr d st) = processed st" "tasks (schedule e pr d st) = tasks st"
  "procs (schedule e pr d st) = procs st"
  "evs (schedule e pr d st) = insert e (evs st)"
  "task_of (schedule e pr d st) = task_of st" "phase_of (schedule e pr d st) = phase_of st"
  by (auto simp: schedule_def evs_def ev_def task_of_def phase_of_def fun_eq_iff)

lemma ev_simp [simp]: "ev (t, p, i, e) = e"
  by (simp add: ev_def)

lemma pred_events_resolved: "pred_events S tid = resolved_preds S tid"
  unfolding pred_events_def resolved_preds_def get_predecessors_filter
  by (simp split: option.splits)


subsection \<open>Changes made to one task leave the others as they are\<close>

lemma preds_done_touches:
  assumes "touches tid st st'" "preds_done S st k x"
  shows "preds_done S st' k x"
  unfolding preds_done_def
proof
  fix p assume "p \<in> set (resolved_preds S k)"
  with assms(2) have f: "phase_of st p = Some Finished"
    and e: "\<exists>tp e. task_of st p = Some tp \<and> actual_end tp = Some e \<and> e \<le> x"
    by (auto simp: preds_done_def)
  from f assms(1) have "p \<noteq> tid" by (auto simp: touches_def)
  with assms(1) have "task_of st' p = task_of st p" "phase_of st' p = phase_of st p"
    by (auto simp: touches_def)
  with f e show "phase_of st' p = Some Finished
      \<and> (\<exists>tp e. task_of st' p = Some tp \<and> actual_end tp = Some e \<and> e \<le> x)" by simp
qed

lemma wait_end_touches:
  assumes "touches tid st st'" "wait_end S st k w"
  shows "wait_end S st' k w"
proof (cases "resolved_preds S k = []")
  case True
  with assms(2) show ?thesis by (simp add: wait_end_def)
next
  case False
  with assms(2) have pd: "preds_done S st k w"
    and "\<exists>p \<in> set (resolved_preds S k). \<exists>tp. task_of st p = Some tp \<and> actual_end tp = Some w"
    by (simp_all add: wait_end_def)
  then obtain p tp where p: "p \<in> set (resolved_preds S k)" "task_of st p = Some tp"
    "actual_end tp = Some w" by blast
  from pd p(1) have "phase_of st p = Some Finished" by (simp add: preds_done_def)
  with assms(1) have "p \<noteq> tid" by (auto simp: touches_def)
  with assms(1) have "task_of st' p = task_of st p" by (auto simp: touches_def)
  with p have "\<exists>p \<in> set (resolved_preds S k). \<exists>tp. task_of st' p = Some tp \<and> actual_end tp = Some w"
    by auto
  with preds_done_touches [OF assms(1) pd] False show ?thesis by (simp add: wait_end_def)
qed

lemma evs_touches:
  assumes "touches tid st st'"
  shows "evs st \<subseteq> evs st'" and "e \<in> evs st' \<Longrightarrow> e \<notin> owned tid \<Longrightarrow> e \<in> evs st"
proof -
  from assms obtain new where n: "queue st' = queue st @ new"
    "\<forall>en \<in> set new. ev en \<in> owned tid"
    unfolding touches_def by blast
  then have e: "evs st' = evs st \<union> ev ` set new" by (simp add: evs_def image_Un)
  show "evs st \<subseteq> evs st'" using e by blast
  show "e \<in> evs st' \<Longrightarrow> e \<notin> owned tid \<Longrightarrow> e \<in> evs st" using e n(2) by blast
qed

lemma queue_touches:
  assumes "touches tid st st'" "en \<in> set (queue st')" "ev en \<notin> owned tid"
  shows "en \<in> set (queue st)"
proof -
  from assms(1) obtain new where n: "queue st' = queue st @ new"
    "\<forall>en \<in> set new. ev en \<in> owned tid"
    unfolding touches_def by blast
  with assms(2,3) show ?thesis by auto
qed

lemma phase_inv_frame:
  assumes t: "touches tid st st'" and k: "k \<noteq> tid"
    and p: "phase_inv dp S st popped k t ph" and i: "popped \<noteq> Some (Initialize k)"
  shows "phase_inv dp S st' None k t ph"
proof -
  have o: "ComputeTimeout k \<notin> owned tid" "UplinkTimeout k \<notin> owned tid"
    "AllOf k \<notin> owned tid" "Completion k \<notin> owned tid"
    using k by (simp_all add: owned_def)
  have n: "now st' = now st" using t by (simp add: touches_def)
  have c: "e \<notin> evs st \<Longrightarrow> e \<notin> owned tid \<Longrightarrow> e \<notin> evs st'" for e
    using evs_touches(2) [OF t, of e] by blast
  have q: "\<forall>en \<in> set (queue st). ev en = e \<longrightarrow> P en \<Longrightarrow> e \<notin> owned tid \<Longrightarrow>
           \<forall>en \<in> set (queue st'). ev en = e \<longrightarrow> P en" for e P
    using queue_touches [OF t] by metis
  note w = wait_end_touches [OF t]
  show ?thesis
  proof (cases ph)
    case AtStart
    with p i c o evs_touches(1) [OF t] show ?thesis by (auto simp: phase_inv_def)
  next
    case AtWait
    with p have a: "\<forall>en \<in> set (queue st). ev en = AllOf k \<longrightarrow> wait_end S st' k (fst en)"
      using w by (auto simp: phase_inv_def)
    from q [OF a o(3)] p c o AtWait show ?thesis by (auto simp: phase_inv_def)
  next
    case AtUplink
    with p obtain x where x: "actual_start t = Some x" "wait_end S st k x"
      "\<forall>en \<in> set (queue st). ev en = UplinkTimeout k \<longrightarrow> fst en = x + uplink_time t"
      by (auto simp: phase_inv_def)
    from q [OF x(3) o(2)] w [OF x(2)] x(1) p c o AtUplink show ?thesis
      by (auto simp: phase_inv_def)
  next
    case AtCompute
    with p obtain s where s: "actual_start t = Some s"
      "\<forall>en \<in> set (queue st). ev en = ComputeTimeout k \<longrightarrow> fst en = s + compute_time t"
      "wait_end S st k (s - uplink_time t)" "uplink_ok dp S k t"
      by (auto simp: phase_inv_def)
    from q [OF s(2) o(1)] w [OF s(3)] s(1,4) AtCompute
    show ?thesis by (auto simp: phase_inv_def)
  next
    case Finished
    with p obtain s where s: "actual_start t = Some s" "actual_end t = Some (s + compute_time t)"
      "s + compute_time t \<le> now st" "0 \<le> s + compute_time t"
      "\<forall>en \<in> set (queue st). ev en = Completion k \<longrightarrow> fst en = s + compute_time t"
      "wait_end S st k (s - uplink_time t)" "uplink_ok dp S k t"
      by (auto simp: phase_inv_def)
    from q [OF s(5) o(4)] w [OF s(6)] s(1,2,3,4,7) n Finished
    show ?thesis by (auto simp: phase_inv_def)
  qed
qed

lemma local_inv_frame:
  assumes t: "touches tid st st'" and k: "k \<noteq> tid"
    and l: "local_inv dp S st popped k" and i: "popped \<noteq> Some (Initialize k)"
  shows "local_inv dp S st' None k"
proof -
  have o: "Completion k \<notin> owned tid"
    using k by (simp_all add: owned_def)
  have same: "task_of st' k = task_of st k" "phase_of st' k = phase_of st k"
    "processed st' = processed st"
    using t k by (auto simp: touches_def)
  have c: "Completion k \<in> evs st' \<Longrightarrow> Completion k \<in> evs st"
    using evs_touches(2) [OF t] o by blast
  show ?thesis
    unfolding local_inv_def same
  proof (intro conjI allI impI)
    assume "Completion k \<in> evs st' \<or> k \<in> set (processed st)"
    with c l show "phase_of st k = Some Finished" by (auto simp: local_inv_def)
  next
    fix t ph assume "task_of st k = Some t \<and> phase_of st k = Some ph"
    with l have "phase_inv dp S st popped k t ph" by (simp add: local_inv_def)
    from phase_inv_frame [OF t k this i] show "phase_inv dp S st' None k t ph" .
  qed
qed

lemma times_ok_touches:
  assumes "touches tid st st'" "times_ok st"
  shows "times_ok st'"
proof -
  from assms(1) obtain new where n: "queue st' = queue st @ new" "now st' = now st"
    "\<forall>en \<in> set new. now st \<le> fst en \<and> ev en \<in> owned tid"
    unfolding touches_def by blast
  have "now st' \<le> fst en \<and> (\<forall>tid. ev en = Initialize tid \<longrightarrow> fst en = 0)"
    if "en \<in> set (queue st')" for en
  proof -
    from that consider "en \<in> set (queue st)" | "en \<in> set new" using n(1) by auto
    then show ?thesis
    proof cases
      case 1
      with assms(2) n(2) show ?thesis by (simp add: times_ok_def)
    next
      case 2
      with n(3) have "now st \<le> fst en" "ev en \<in> owned tid" by auto
      with n(2) show ?thesis by (auto simp: owned_def)
    qed
  qed
  with assms(2) n(2) show ?thesis by (simp add: times_ok_def)
qed

lemma keys_ok_touches: "touches tid st st' \<Longrightarrow> keys_ok S st \<Longrightarrow> keys_ok S st'"
  unfolding touches_def keys_ok_def by metis

lemma replay_inv_touches:
  assumes "touches tid st st'" "replay_inv dp S st popped"
    and "\<And>k. popped = Some (Initialize k) \<Longrightarrow> k = tid"
    and "local_inv dp S st' None tid"
  shows "replay_inv dp S st' None"
  unfolding replay_inv_def
proof (intro conjI allI)
  from assms(1,2) show "keys_ok S st'" by (auto simp: replay_inv_def intro: keys_ok_touches)
  from assms(1,2) show "times_ok st'" by (auto simp: replay_inv_def intro: times_ok_touches)
  fix k show "local_inv dp S st' None k"
  proof (cases "k = tid")
    case True
    with assms(4) show ?thesis by simp
  next
    case False
    from assms(2) have "local_inv dp S st popped k" by (simp add: replay_inv_def)
    moreover from False assms(3) have "popped \<noteq> Some (Initialize k)" by auto
    ultimately show ?thesis using local_inv_frame [OF assms(1) False] by blast
  qed
qed

lemma touches_set_task:
  "touches tid (set_task tid f st) st' \<Longrightarrow> touches tid st st'"
  by (auto simp: touches_def task_of_set_task)


subsection \<open>Transfer times are not negative\<close>

lemma sum_delays_nonneg:
  "0 \<le> acc \<Longrightarrow> \<forall>r \<in> set rs. \<forall>x. r = Inr x \<longrightarrow> 0 \<le> x \<Longrightarrow> sum_delays acc rs = Inr y \<Longrightarrow> 0 \<le> y"
proof (induction acc rs rule: sum_delays.induct)
  case (1 acc)
  then show ?case by simp
next
  case (2 acc e rs)
  then show ?case by simp
next
  case (3 acc x rs)
  from "3.prems" have "0 \<le> acc + x" by simp
  with "3.IH" "3.prems" show ?case by simp
qed

lemma link_time_nonneg:
  "0 \<le> d \<Longrightarrow> link_get_transfer_time l d = Inr x \<Longrightarrow> 0 \<le> x"
  by (auto simp: link_get_transfer_time_def Let_def split: if_splits)

lemma get_transfer_time_nonneg:
  assumes "0 \<le> d" "get_transfer_time dp T s t d = Inr x"
  shows "0 \<le> x"
proof (cases "s = t")
  case True
  with assms show ?thesis
    by (auto simp: get_transfer_time_def split: option.splits dest: link_time_nonneg)
next
  case False
  with assms(2) obtain ls where
    "sum_delays 0 (map (\<lambda>l. link_get_transfer_time l d) ls) = Inr x"
    by (auto simp: get_transfer_time_def split: sum.splits if_splits)
  moreover have "\<forall>r \<in> set (map (\<lambda>l. link_get_transfer_time l d) ls). \<forall>x. r = Inr x \<longrightarrow> 0 \<le> x"
    using assms(1) by (auto dest: link_time_nonneg)
  ultimately show ?thesis using sum_delays_nonneg [of 0] by blast
qed

lemma transfer_times_nonneg:
  "transfer_times dp S me tid ps = Inr ts \<Longrightarrow> \<forall>x \<in> set ts. 0 \<le> x"
proof (induction ps arbitrary: ts)
  case Nil
  then show ?case by simp
next
  case (Cons p ps)
  show ?case
  proof (cases "map_of (scheduled_tasks S) p")
    case None
    with Cons show ?thesis by simp
  next
    case (Some pt)
    show ?thesis
    proof (cases "0 < get_data_from_predecessor (task_definitions S) p tid")
      case False
      with Some Cons show ?thesis by simp
    next
      case True
      with Some Cons.prems obtain x xs where
        x: "get_transfer_time dp (topology S) (node_id pt) (node_id me)
              (get_data_from_predecessor (task_definitions S) p tid) = Inr x"
        and xs: "transfer_times dp S me tid ps = Inr xs" and ts: "ts = x # xs"
        by (auto simp: Let_def split: sum.splits)
      from True have "0 \<le> get_data_from_predecessor (task_definitions S) p tid" by simp
      from get_transfer_time_nonneg [OF this x] Cons.IH [OF xs] ts show ?thesis by simp
    qed
  qed
qed

lemma max_list_nonneg: "xs \<noteq> [] \<Longrightarrow> \<forall>x \<in> set xs. 0 \<le> x \<Longrightarrow> 0 \<le> max_list xs"
  by (induction xs rule: max_list.induct) (simp_all add: max_def)

lemma compute_uplink_nonneg:
  assumes "compute_uplink dp S me tid ps = Inr u"
  shows "0 \<le> u"
proof -
  from assms obtain ts where ts: "transfer_times dp S me tid ps = Inr ts"
    and u: "u = (if ts = [] then 0 else max_list ts)"
    by (auto simp: compute_uplink_def split: sum.splits)
  from transfer_times_nonneg [OF ts] u show ?thesis by (simp add: max_list_nonneg)
qed

lemma uplink_ok_nonneg: "uplink_ok dp S tid t \<Longrightarrow> 0 \<le> uplink_time t"
  by (auto simp: uplink_ok_def dest: compute_uplink_nonneg)

subsection \<open>The segments of the generator\<close>

lemma evs_I: "en \<in> set (queue st) \<Longrightarrow> ev en \<in> evs st"
  by (simp add: evs_def)

lemma enter_compute_Inr:
  assumes "enter_compute S tid me td st = Inr st'"
  shows "\<exists>ct. 0 \<le> ct
    \<and> st' = set_proc tid (\<lambda>p. p\<lparr>p_phase := AtCompute\<rparr>)
                 (schedule (ComputeTimeout tid) NORMAL ct
                   (set_task tid (\<lambda>t. t\<lparr>compute_time := ct\<rparr>)
                     (set_task tid (\<lambda>t. t\<lparr>actual_start := Some (now st)\<rparr>) st)))"
proof (cases "get_compute_time (topology S) (node_id me) (compute_cost td) (base_compute_speed S)")
  case (Inl x)
  with assms show ?thesis by (simp add: enter_compute_def)
next
  case (Inr ct)
  with assms have "\<not> ct < 0" by (auto simp: enter_compute_def Let_def split: if_splits)
  with assms Inr show ?thesis
    by (intro exI [of _ ct]) (simp add: enter_compute_def Let_def)
qed

lemma new_entry_time:
  assumes "e \<notin> evs st" "queue st' = queue st @ [(x, pr, i, e)]"
  shows "\<forall>en \<in> set (queue st'). ev en = e \<longrightarrow> fst en = x"
proof (intro ballI impI)
  fix en assume en: "en \<in> set (queue st')" "ev en = e"
  from en(1) consider "en \<in> set (queue st)" | "en = (x, pr, i, e)"
    unfolding assms(2) by auto
  then show "fst en = x"
  proof cases
    case 1
    from evs_I [OF this] en(2) assms(1) show ?thesis by simp
  next
    case 2
    then show ?thesis by simp
  qed
qed

lemma enter_compute_inv:
  assumes e: "enter_compute S tid me td st = Inr st'"
    and pr: "map_of (procs st) tid = Some pr" "p_phase pr \<noteq> Finished"
    and t: "task_of st tid = Some t"
    and c: "Completion tid \<notin> evs st" "tid \<notin> set (processed st)"
    and ct: "ComputeTimeout tid \<notin> evs st"
    and we: "wait_end S st tid (now st - uplink_time t)"
    and u: "uplink_ok dp S tid t"
  shows "touches tid st st' \<and> local_inv dp S st' None tid"
proof -
  from e obtain d where d: "0 \<le> d"
    and st': "st' = set_proc tid (\<lambda>p. p\<lparr>p_phase := AtCompute\<rparr>)
                 (schedule (ComputeTimeout tid) NORMAL d
                   (set_task tid (\<lambda>t. t\<lparr>compute_time := d\<rparr>)
                     (set_task tid (\<lambda>t. t\<lparr>actual_start := Some (now st)\<rparr>) st)))"
    using enter_compute_Inr by blast
  define t' where "t' = t\<lparr>actual_start := Some (now st), compute_time := d\<rparr>"
  have ph: "phase_of st tid = Some (p_phase pr)" using pr(1) by (simp add: phase_of_def)
  have T: "touches tid st st'"
    unfolding touches_def st'
    using pr d t ph
    by (simp add: task_of_set_task phase_of_set_proc owned_def)
  have q: "queue st' = queue st @ [(now st + d, NORMAL, eid st, ComputeTimeout tid)]"
    and ev': "evs st' = insert (ComputeTimeout tid) (evs st)"
    and p': "processed st' = processed st"
    and t': "task_of st' tid = Some t'"
    and ph': "phase_of st' tid = Some AtCompute"
    using t pr by (simp_all add: st' task_of_set_task phase_of_set_proc t'_def)
  have "wait_end S st' tid (now st - uplink_time t')"
    using wait_end_touches [OF T we] by (simp add: t'_def)
  moreover have "\<forall>en \<in> set (queue st'). ev en = ComputeTimeout tid \<longrightarrow>
      fst en = now st + compute_time t'"
    using new_entry_time [OF ct q] by (simp add: t'_def)
  moreover have "uplink_ok dp S tid t'"
    using u by (simp add: uplink_ok_def t'_def)
  moreover have "actual_start t' = Some (now st)" by (simp add: t'_def)
  ultimately have "phase_inv dp S st' None tid t' AtCompute"
    by (simp add: phase_inv_def)
  then have "local_inv dp S st' None tid"
    unfolding local_inv_def t' ph' ev' p' using c by simp
  with T show ?thesis by simp
qed

lemma touches_set_task_self:
  assumes "phase_of st tid \<noteq> Some Finished"
  shows "touches tid st (set_task tid f st)"
  unfolding touches_def
proof (intro conjI allI impI)
  show "\<exists>new. queue (set_task tid f st) = queue st @ new
      \<and> (\<forall>en \<in> set new. now st \<le> fst en \<and> ev en \<in> owned tid)"
    by (intro exI [of _ "[]"]) simp
qed (use assms in \<open>simp_all add: task_of_set_task\<close>)

lemma compute_uplink_Nil: "compute_uplink dp S me tid [] = Inr 0"
  by (simp add: compute_uplink_def)

lemma enter_transfer_inv:
  assumes e: "enter_transfer dp S tid me td st = Inr st'"
    and me: "map_of (scheduled_tasks S) tid = Some me"
    and pr: "map_of (procs st) tid = Some pr" "p_phase pr \<noteq> Finished"
    and t: "task_of st tid = Some t"
    and c: "Completion tid \<notin> evs st" "tid \<notin> set (processed st)"
    and ct: "ComputeTimeout tid \<notin> evs st" "UplinkTimeout tid \<notin> evs st"
    and we: "wait_end S st tid (now st)"
  shows "touches tid st st' \<and> local_inv dp S st' None tid"
proof -
  define st1 where "st1 = set_task tid (\<lambda>t. t\<lparr>actual_start := Some (now st)\<rparr>) st"
  from e obtain u where u: "compute_uplink dp S me tid (resolved_preds S tid) = Inr u"
    by (auto simp: enter_transfer_def resolved_preds_def Let_def split: sum.splits)
  have u0: "0 \<le> u" using u by (rule compute_uplink_nonneg)
  define st2 where "st2 = set_task tid (\<lambda>t. t\<lparr>uplink_time := u\<rparr>) st1"
  define t2 where "t2 = t\<lparr>actual_start := Some (now st), uplink_time := u\<rparr>"
  have t2: "task_of st2 tid = Some t2"
    using t by (simp add: st2_def st1_def t2_def task_of_set_task)
  have uok: "uplink_ok dp S tid t2"
    using u me by (simp add: uplink_ok_def t2_def)
  have T2: "touches tid st st'" if "touches tid st2 st'"
  proof -
    from that have "touches tid st1 st'" unfolding st2_def by (rule touches_set_task)
    then show ?thesis unfolding st1_def by (rule touches_set_task)
  qed
  have ph: "phase_of st tid = Some (p_phase pr)" using pr(1) by (simp add: phase_of_def)
  have nf: "phase_of st tid \<noteq> Some Finished" using ph pr(2) by simp
  have we2: "wait_end S st2 tid (now st)"
  proof -
    have "touches tid st st1" unfolding st1_def using nf by (rule touches_set_task_self)
    from wait_end_touches [OF this we] have "wait_end S st1 tid (now st)" .
    moreover have "touches tid st1 st2"
      unfolding st2_def by (rule touches_set_task_self) (simp add: st1_def nf)
    ultimately show ?thesis by (rule wait_end_touches [rotated])
  qed
  show ?thesis
  proof (cases "u > 0")
    case True
    with e u have st': "st' = set_proc tid (\<lambda>p. p\<lparr>p_phase := AtUplink\<rparr>)
                             (schedule (UplinkTimeout tid) NORMAL u st2)"
      by (simp add: enter_transfer_def resolved_preds_def Let_def st2_def st1_def)
    have T: "touches tid st2 st'"
      unfolding touches_def st'
      using pr True t2 ph by (simp add: task_of_set_task phase_of_set_proc owned_def st2_def st1_def)
    have ev': "evs st' = insert (UplinkTimeout tid) (evs st)"
      and q: "queue st' = queue st @ [(now st + u, NORMAL, eid st, UplinkTimeout tid)]"
      and p': "processed st' = processed st"
      and t': "task_of st' tid = Some t2"
      and ph': "phase_of st' tid = Some AtUplink"
      using t2 pr by (simp_all add: st' phase_of_set_proc st2_def st1_def)
    have ne: "resolved_preds S tid \<noteq> []"
      using u True by (auto simp: compute_uplink_Nil)
    have "wait_end S st' tid (now st)" using wait_end_touches [OF T we2] .
    moreover have "\<forall>en \<in> set (queue st'). ev en = UplinkTimeout tid \<longrightarrow>
        fst en = now st + uplink_time t2"
      using new_entry_time [OF ct(2) q] by (simp add: t2_def)
    moreover have "actual_start t2 = Some (now st)" by (simp add: t2_def)
    ultimately have "phase_inv dp S st' None tid t2 AtUplink"
      using ct ne uok by (simp add: phase_inv_def ev')
    then have "local_inv dp S st' None tid"
      unfolding local_inv_def t' ph' p' using c by (simp add: ev')
    with T T2 show ?thesis by simp
  next
    case False
    with u0 have z: "u = 0" by simp
    from False e u have ec: "enter_compute S tid me td st2 = Inr st'"
      by (simp add: enter_transfer_def resolved_preds_def Let_def st2_def st1_def)
    have "touches tid st2 st' \<and> local_inv dp S st' None tid"
    proof (rule enter_compute_inv [OF ec _ pr(2) t2 _ _ _ _ uok])
      show "map_of (procs st2) tid = Some pr" using pr(1) by (simp add: st2_def st1_def)
      show "Completion tid \<notin> evs st2" "tid \<notin> set (processed st2)" "ComputeTimeout tid \<notin> evs st2"
        using c ct by (simp_all add: st2_def st1_def)
      show "wait_end S st2 tid (now st2 - uplink_time t2)"
        using we2 z by (simp add: st2_def st1_def t2_def)
    qed
    with T2 show ?thesis by simp
  qed
qed

lemma local_inv_not_finished:
  assumes "local_inv dp S st popped tid" "phase_of st tid = Some ph" "ph \<noteq> Finished"
  shows "Completion tid \<notin> evs st" "tid \<notin> set (processed st)"
  using assms by (auto simp: local_inv_def)

text \<open>A completion event that has been processed belongs to a task that ended by now.\<close>

lemma start_process_inv:
  assumes e: "start_process dp S tid me st = Inr st'"
    and me: "map_of (scheduled_tasks S) tid = Some me"
    and pr: "map_of (procs st) tid = Some pr" "p_phase pr = AtStart"
    and t: "task_of st tid = Some t"
    and l: "local_inv dp S st popped tid"
    and z: "now st = 0"
    and pz: "\<And>p. p \<in> set (processed st) \<Longrightarrow>
               phase_of st p = Some Finished
               \<and> (\<exists>tp. task_of st p = Some tp \<and> actual_end tp = Some 0)"
  shows "touches tid st st' \<and> local_inv dp S st' None tid"
proof -
  have ph: "phase_of st tid = Some AtStart" using pr by (simp add: phase_of_def)
  have nf: "p_phase pr \<noteq> Finished" using pr(2) by simp
  from l ph t have ct: "ComputeTimeout tid \<notin> evs st" "UplinkTimeout tid \<notin> evs st"
    and ao: "AllOf tid \<notin> evs st"
    by (auto simp: local_inv_def phase_inv_def)
  have c: "Completion tid \<notin> evs st" "tid \<notin> set (processed st)"
    using local_inv_not_finished [OF l ph] by simp_all
  from e obtain td where td: "map_of (task_definitions S) (get_base_task_id tid) = Some td"
    by (cases "map_of (task_definitions S) (get_base_task_id tid)")
       (simp_all add: start_process_def)
  show ?thesis
  proof (cases "resolved_preds S tid \<noteq> []")
    case True
    define tr where "tr = (\<forall>p \<in> set (pred_events S tid). p \<in> set (processed st))"
    define st0 where "st0 = (if tr then schedule (AllOf tid) NORMAL 0 st else st)"
    from e td True
    have st': "st' = set_proc tid (\<lambda>p. p\<lparr>p_phase := AtWait, p_triggered := tr\<rparr>) st0"
      by (simp add: start_process_def Let_def tr_def st0_def pred_events_resolved resolved_preds_def)
    have q: "queue st' = queue st @ (if tr then [(now st, NORMAL, eid st, AllOf tid)] else [])"
      and ev': "evs st' = (if tr then insert (AllOf tid) (evs st) else evs st)"
      and p': "processed st' = processed st"
      and n': "now st' = now st"
      and t': "task_of st' k = task_of st k"
      and ph': "phase_of st' k = (if k = tid then Some AtWait else phase_of st k)" for k
      using pr by (simp_all add: st' st0_def phase_of_set_proc)
    have T: "touches tid st st'"
      unfolding touches_def q n' p' t' ph' using ph by (simp add: owned_def)
    have a: "\<forall>en \<in> set (queue st'). ev en = AllOf tid \<longrightarrow> wait_end S st' tid (fst en)"
    proof (cases tr)
      case False
      with ao q show ?thesis by (auto dest: evs_I)
    next
      case tr: True
      have d: "phase_of st p = Some Finished
               \<and> (\<exists>tp. task_of st p = Some tp \<and> actual_end tp = Some 0)"
        if "p \<in> set (resolved_preds S tid)" for p
        using that tr pz [of p] by (simp add: tr_def pred_events_resolved)
      have "preds_done S st tid 0"
        unfolding preds_done_def using d by fastforce
      moreover from True obtain p0 where "p0 \<in> set (resolved_preds S tid)"
        by (cases "resolved_preds S tid") auto
      with d have "\<exists>p \<in> set (resolved_preds S tid). \<exists>tp. task_of st p = Some tp \<and> actual_end tp = Some 0"
        by blast
      ultimately have "wait_end S st tid 0" using True by (simp add: wait_end_def)
      from wait_end_touches [OF T this] have w: "wait_end S st' tid 0" .
      from tr q have "queue st' = queue st @ [(now st, NORMAL, eid st, AllOf tid)]" by simp
      from new_entry_time [OF ao this] w z show ?thesis by simp
    qed
    have "phase_inv dp S st' None tid t AtWait"
      using ct True a by (simp add: phase_inv_def ev')
    then have "local_inv dp S st' None tid"
      unfolding local_inv_def t' ph' p' using c t by (simp add: ev')
    with T show ?thesis by simp
  next
    case False
    with e td have "enter_transfer dp S tid me td st = Inr st'"
      by (simp add: start_process_def resolved_preds_def)
    from enter_transfer_inv [OF this me pr(1) nf t c ct] False z
    show ?thesis by (simp add: wait_end_def)
  qed
qed

lemma finish_task_inv:
  assumes pr: "map_of (procs st) tid = Some pr" "p_phase pr = AtCompute"
    and t: "task_of st tid = Some t"
    and l: "local_inv dp S st popped tid"
    and s: "actual_start t = Some s" "now st = s + compute_time t"
    and n0: "0 \<le> now st"
  shows "touches tid st (finish_task tid st) \<and> local_inv dp S (finish_task tid st) None tid"
proof -
  define st' where "st' = finish_task tid st"
  define t1 where "t1 = t\<lparr>actual_end := Some (now st)\<rparr>"
  have ph: "phase_of st tid = Some AtCompute" using pr by (simp add: phase_of_def)
  from l ph t s(1) have we: "wait_end S st tid (s - uplink_time t)"
    and u: "uplink_ok dp S tid t"
    by (auto simp: local_inv_def phase_inv_def)
  have c: "Completion tid \<notin> evs st"
    using local_inv_not_finished [OF l ph] by simp
  define st0 where "st0 = schedule (Completion tid) NORMAL 0
      (set_task tid (\<lambda>t. t\<lparr>actual_end := Some (now st)\<rparr>) st)"
  have q0: "queue st0 = queue st @ [(now st, NORMAL, eid st, Completion tid)]"
    by (simp add: st0_def)
  have q: "queue st' = queue st0 @ [(now st, NORMAL, Suc (eid st), ProcessExit tid)]"
    and ev': "evs st' = insert (Completion tid) (insert (ProcessExit tid) (evs st))"
    and p': "processed st' = processed st"
    and n': "now st' = now st"
    and t': "task_of st' k = (if k = tid then Some t1 else task_of st k)"
    and ph': "phase_of st' k = (if k = tid then Some Finished else phase_of st k)" for k
    using pr t
    by (simp_all add: st'_def st0_def finish_task_def Let_def phase_of_set_proc task_of_set_task t1_def
        schedule_def evs_def task_of_def phase_of_def set_proc_def set_task_def map_of_map_entry)
  have T: "touches tid st st'"
    unfolding touches_def q q0 n' p' t' ph' using ph t by (simp add: owned_def)
  have e0: "\<forall>en \<in> set (queue st0). ev en = Completion tid \<longrightarrow> fst en = now st"
    using new_entry_time [OF c q0] .
  have "\<forall>en \<in> set (queue st'). ev en = Completion tid \<longrightarrow> fst en = s + compute_time t1"
    unfolding q using e0 s(2) by (auto simp: t1_def)
  moreover have "wait_end S st' tid (s - uplink_time t1)"
    using wait_end_touches [OF T we] by (simp add: t1_def)
  ultimately have "phase_inv dp S st' None tid t1 Finished"
    using s u n0 by (simp add: phase_inv_def t1_def n' uplink_ok_def)
  then have "local_inv dp S st' None tid"
    unfolding local_inv_def t' ph' p' by (simp add: ev')
  with T show ?thesis by (simp add: st'_def)
qed

subsection \<open>Popping an entry, and the callbacks of a completion event\<close>

lemma preds_done_mono:
  assumes "task_of st' = task_of st" "phase_of st' = phase_of st" "x \<le> y"
    and "preds_done S st k x"
  shows "preds_done S st' k y"
  using assms unfolding preds_done_def by force

lemma wait_end_same:
  assumes "task_of st' = task_of st" "phase_of st' = phase_of st"
  shows "wait_end S st' k w = wait_end S st k w"
  unfolding wait_end_def preds_done_def assms ..

lemma phase_inv_weaken:
  assumes p: "phase_inv dp S st popped k t ph"
    and same: "task_of st' = task_of st" "phase_of st' = phase_of st"
    and n: "now st \<le> now st'"
    and q: "\<forall>en \<in> set (queue st').
              ev en \<in> {ComputeTimeout k, UplinkTimeout k, Completion k} \<longrightarrow> en \<in> set (queue st)"
    and a: "\<forall>en \<in> set (queue st'). ev en = AllOf k \<longrightarrow>
              en \<in> set (queue st) \<or> (ph = AtWait \<and> wait_end S st' k (fst en))"
    and i: "ph = AtStart \<longrightarrow> popped' \<noteq> Some (Initialize k) \<longrightarrow> Initialize k \<in> evs st'"
  shows "phase_inv dp S st' popped' k t ph"
proof -
  have c: "e \<notin> evs st \<Longrightarrow> e \<in> {ComputeTimeout k, UplinkTimeout k, Completion k} \<Longrightarrow> e \<notin> evs st'"
    for e
  proof
    assume b: "e \<notin> evs st" "e \<in> {ComputeTimeout k, UplinkTimeout k, Completion k}" "e \<in> evs st'"
    from b(3) obtain en where "en \<in> set (queue st')" "ev en = e"
      by (auto simp: evs_def)
    with q b(2) have "en \<in> set (queue st)" "ev en = e" by auto
    with b(1) evs_I [of en st] show False by simp
  qed
  have r: "\<forall>en \<in> set (queue st). ev en = e \<longrightarrow> P en \<Longrightarrow>
           e \<in> {ComputeTimeout k, UplinkTimeout k, Completion k} \<Longrightarrow>
           \<forall>en \<in> set (queue st'). ev en = e \<longrightarrow> P en" for e P
    using q by blast
  note w = wait_end_same [OF same, of S k]
  show ?thesis
  proof (cases ph)
    case AtStart
    have "AllOf k \<notin> evs st'" if "AllOf k \<notin> evs st"
    proof
      assume "AllOf k \<in> evs st'"
      then obtain en where en: "en \<in> set (queue st')" "ev en = AllOf k" by (auto simp: evs_def)
      with a AtStart have "en \<in> set (queue st)" by auto
      with en(2) that evs_I [of en st] show False by simp
    qed
    with p i c AtStart show ?thesis by (simp add: phase_inv_def)
  next
    case AtWait
    with p have o: "\<forall>en \<in> set (queue st). ev en = AllOf k \<longrightarrow> wait_end S st' k (fst en)"
      by (simp add: phase_inv_def w)
    with a have "\<forall>en \<in> set (queue st'). ev en = AllOf k \<longrightarrow> wait_end S st' k (fst en)"
      by blast
    with p c AtWait show ?thesis by (simp add: phase_inv_def)
  next
    case AtUplink
    with p obtain x where x: "actual_start t = Some x" "wait_end S st k x"
      "\<forall>en \<in> set (queue st). ev en = UplinkTimeout k \<longrightarrow> fst en = x + uplink_time t"
      by (auto simp: phase_inv_def)
    from r [OF x(3)] x(1,2) p c AtUplink show ?thesis
      by (auto simp: phase_inv_def w)
  next
    case AtCompute
    with p obtain s where s: "actual_start t = Some s"
      "\<forall>en \<in> set (queue st). ev en = ComputeTimeout k \<longrightarrow> fst en = s + compute_time t"
      "wait_end S st k (s - uplink_time t)" "uplink_ok dp S k t"
      by (auto simp: phase_inv_def)
    from r [OF s(2)] s(1,3,4) AtCompute show ?thesis by (auto simp: phase_inv_def w)
  next
    case Finished
    with p obtain s where s: "actual_start t = Some s" "actual_end t = Some (s + compute_time t)"
      "s + compute_time t \<le> now st" "0 \<le> s + compute_time t"
      "\<forall>en \<in> set (queue st). ev en = Completion k \<longrightarrow> fst en = s + compute_time t"
      "wait_end S st k (s - uplink_time t)" "uplink_ok dp S k t"
      by (auto simp: phase_inv_def)
    from s(3) n have "s + compute_time t \<le> now st'" by simp
    with r [OF s(5)] s(1,2,4,6,7) Finished show ?thesis by (auto simp: phase_inv_def w)
  qed
qed

lemma min_entry_le:
  "fst (min_entry m xs) \<le> fst m \<and> (\<forall>x \<in> set xs. fst (min_entry m xs) \<le> fst x)"
proof (induction xs arbitrary: m)
  case Nil
  then show ?case by simp
next
  case (Cons x xs)
  obtain t1 p1 e1 v1 where m: "m = (t1, p1, e1, v1)" by (cases m)
  obtain t2 p2 e2 v2 where x: "x = (t2, p2, e2, v2)" by (cases x)
  show ?case
  proof (cases "entry_le m x")
    case True
    then have "fst m \<le> fst x" by (auto simp: m x)
    with Cons.IH [of m] True show ?thesis by auto
  next
    case False
    then have "fst x \<le> fst m" by (auto simp: m x)
    with Cons.IH [of x] False show ?thesis by auto
  qed
qed

lemma pop_min:
  assumes "pop q = Some (en, q')"
  shows "\<forall>x \<in> set q. fst en \<le> fst x"
proof (cases q)
  case Nil
  with assms show ?thesis by (simp add: pop_def)
next
  case (Cons x xs)
  with assms have "en = min_entry x xs" by (auto simp: pop_def Let_def)
  with min_entry_le [of x xs] Cons show ?thesis by auto
qed

lemma replay_inv_pop:
  assumes inv: "replay_inv dp S st None"
    and en: "en \<in> set (queue st)" and mn: "\<forall>x \<in> set (queue st). fst en \<le> fst x"
  shows "replay_inv dp S (st\<lparr>now := fst en, queue := remove1 en (queue st)\<rparr>) (Some (ev en))"
proof -
  define st' where "st' = st\<lparr>now := fst en, queue := remove1 en (queue st)\<rparr>"
  have same: "task_of st' = task_of st" "phase_of st' = phase_of st"
    and p': "processed st' = processed st" and n': "now st' = fst en"
    and q': "queue st' = remove1 en (queue st)"
    by (simp_all add: st'_def task_of_def phase_of_def fun_eq_iff)
  have sub: "set (queue st') \<subseteq> set (queue st)" unfolding q' by (rule set_remove1_subset)
  then have esub: "evs st' \<subseteq> evs st" by (auto simp: evs_def)
  from inv have k: "keys_ok S st" and tm: "times_ok st" and l: "\<And>tid. local_inv dp S st None tid"
    by (simp_all add: replay_inv_def)
  from tm en have n: "now st \<le> now st'" by (simp add: times_ok_def n')
  have "keys_ok S st'" using k by (simp add: keys_ok_def same)
  moreover have "times_ok st'"
    unfolding times_ok_def n' using tm mn sub n by (auto simp: times_ok_def n')
  moreover have "local_inv dp S st' (Some (ev en)) tid" for tid
    unfolding local_inv_def same p'
  proof (intro conjI allI impI)
    assume "Completion tid \<in> evs st' \<or> tid \<in> set (processed st)"
    with esub l [of tid] show "phase_of st tid = Some Finished" by (auto simp: local_inv_def)
  next
    fix t ph assume a: "task_of st tid = Some t \<and> phase_of st tid = Some ph"
    with l [of tid] have p: "phase_inv dp S st None tid t ph" by (simp add: local_inv_def)
    show "phase_inv dp S st' (Some (ev en)) tid t ph"
    proof (rule phase_inv_weaken [OF p same n])
      show "\<forall>x \<in> set (queue st').
              ev x \<in> {ComputeTimeout tid, UplinkTimeout tid, Completion tid} \<longrightarrow> x \<in> set (queue st)"
        using sub by blast
      show "\<forall>x \<in> set (queue st'). ev x = AllOf tid \<longrightarrow>
              x \<in> set (queue st) \<or> (ph = AtWait \<and> wait_end S st' tid (fst x))"
        using sub by blast
      show "ph = AtStart \<longrightarrow> Some (ev en) \<noteq> Some (Initialize tid) \<longrightarrow> Initialize tid \<in> evs st'"
      proof (intro impI)
        assume ph: "ph = AtStart" and ne: "Some (ev en) \<noteq> Some (Initialize tid)"
        with p have "Initialize tid \<in> evs st" by (simp add: phase_inv_def)
        then obtain x where x: "x \<in> set (queue st)" "ev x = Initialize tid"
          by (auto simp: evs_def)
        with ne have "x \<noteq> en" by auto
        with x(1) have "x \<in> set (queue st')" by (simp add: q')
        from evs_I [OF this] x(2) show "Initialize tid \<in> evs st'" by simp
      qed
    qed
  qed
  ultimately show ?thesis by (simp add: replay_inv_def st'_def)
qed

lemma wakes_refl: "wakes S d st st"
  unfolding wakes_def by (intro conjI allI exI [of _ "[]"]) simp_all

lemma check_condition_wakes:
  assumes "wakes S d st0 st"
  shows "wakes S d st0 (check_condition S d w st)"
proof (cases "map_of (procs st) w")
  case None
  with assms show ?thesis by (simp add: check_condition_def)
next
  case (Some pr)
  show ?thesis
  proof (cases "p_phase pr = AtWait \<and> \<not> p_triggered pr \<and> d \<in> set (pred_events S w)
             \<and> (\<forall>p \<in> set (pred_events S w). p \<in> set (processed st))")
    case False
    with Some assms show ?thesis by (auto simp: check_condition_def)
  next
    case True
    define st' where "st' = set_proc w (\<lambda>p. p\<lparr>p_triggered := True\<rparr>) (schedule (AllOf w) NORMAL 0 st)"
    from True Some have e: "check_condition S d w st = st'"
      by (simp add: check_condition_def st'_def)
    from assms obtain new where new: "queue st = queue st0 @ new"
      "\<forall>en \<in> set new. fst en = now st0
          \<and> (\<exists>w. ev en = AllOf w \<and> phase_of st0 w = Some AtWait \<and> d \<in> set (pred_events S w)
                \<and> (\<forall>p \<in> set (pred_events S w). p \<in> set (processed st0)))"
      unfolding wakes_def by blast
    from assms have s: "now st = now st0" "tasks st = tasks st0" "processed st = processed st0"
      "\<And>k. phase_of st k = phase_of st0 k"
      by (simp_all add: wakes_def)
    have ph: "phase_of st' k = phase_of st k" for k
      using Some by (simp add: st'_def phase_of_set_proc) (simp add: phase_of_def)
    have pw: "phase_of st0 w = Some AtWait"
      using Some True s(4) [of w] by (simp add: phase_of_def)
    have q: "queue st' = queue st0 @ (new @ [(now st0, NORMAL, eid st, AllOf w)])"
      by (simp add: st'_def new(1) s(1))
    have "\<forall>en \<in> set (new @ [(now st0, NORMAL, eid st, AllOf w)]). fst en = now st0
          \<and> (\<exists>w. ev en = AllOf w \<and> phase_of st0 w = Some AtWait \<and> d \<in> set (pred_events S w)
                \<and> (\<forall>p \<in> set (pred_events S w). p \<in> set (processed st0)))"
      using new(2) True s(3) pw by auto
    with q have "\<exists>new. queue st' = queue st0 @ new
            \<and> (\<forall>en \<in> set new. fst en = now st0
                  \<and> (\<exists>w. ev en = AllOf w \<and> phase_of st0 w = Some AtWait
                        \<and> d \<in> set (pred_events S w)
                        \<and> (\<forall>p \<in> set (pred_events S w). p \<in> set (processed st0))))"
      by blast
    then show ?thesis
      unfolding e wakes_def using s ph by (simp add: st'_def)
  qed
qed

lemma fold_check_condition_wakes:
  "wakes S d st0 st \<Longrightarrow> wakes S d st0 (fold (check_condition S d) ws st)"
  by (induction ws arbitrary: st) (simp_all add: check_condition_wakes)

lemma keys_ok_task:
  assumes "keys_ok S st" "map_of (scheduled_tasks S) tid = Some me"
  obtains t where "task_of st tid = Some t"
  using assms unfolding keys_ok_def in_dict_def by (metis option.exhaust option.distinct(1))

lemma keys_ok_phase_task:
  assumes "keys_ok S st" "phase_of st tid = Some ph"
  obtains t where "task_of st tid = Some t"
  using assms unfolding keys_ok_def by (metis option.exhaust option.distinct(1))

lemma keys_ok_no_task:
  assumes "keys_ok S st" "map_of (scheduled_tasks S) tid = None"
  shows "phase_of st tid = None"
  using assms unfolding keys_ok_def in_dict_def by metis

lemma processed_ended:
  assumes k: "keys_ok S st" and l: "local_inv dp S st popped p"
    and p: "p \<in> set (processed st)"
  shows "phase_of st p = Some Finished
         \<and> (\<exists>tp e. task_of st p = Some tp \<and> actual_end tp = Some e \<and> 0 \<le> e \<and> e \<le> now st)"
proof -
  from l p have f: "phase_of st p = Some Finished" by (simp add: local_inv_def)
  from keys_ok_phase_task [OF k f] obtain tp where tp: "task_of st p = Some tp" .
  with l f have "phase_inv dp S st popped p tp Finished" by (simp add: local_inv_def)
  with f tp show ?thesis by (auto simp: phase_inv_def)
qed

lemma process_completion_inv:
  assumes inv: "replay_inv dp S st (Some (Completion d))"
    and f: "phase_of st d = Some Finished"
    and dn: "task_of st d = Some td" "actual_end td = Some (now st)"
  shows "replay_inv dp S (process_completion S d st) None"
proof -
  define st0 where "st0 = st\<lparr>processed := d # processed st\<rparr>"
  define st' where "st' = process_completion S d st"
  have "wakes S d st0 st'"
    unfolding st'_def process_completion_def st0_def [symmetric]
    using fold_check_condition_wakes [OF wakes_refl, of S d st0 "map fst (procs st)"]
    by (simp add: st0_def)
  then obtain new where new: "queue st' = queue st @ new"
      "\<forall>en \<in> set new. fst en = now st
          \<and> (\<exists>w. ev en = AllOf w \<and> phase_of st w = Some AtWait \<and> d \<in> set (pred_events S w)
                \<and> (\<forall>p \<in> set (pred_events S w). p \<in> set (d # processed st)))"
    and n': "now st' = now st" and p': "processed st' = d # processed st"
    and same: "task_of st' = task_of st" "phase_of st' = phase_of st"
    unfolding wakes_def st0_def by (auto simp: task_of_def phase_of_def fun_eq_iff)
  have ev': "evs st' = evs st \<union> ev ` set new" by (simp add: evs_def new(1) image_Un)
  from inv have k: "keys_ok S st" and tm: "times_ok st"
    and l: "\<And>tid. local_inv dp S st (Some (Completion d)) tid"
    by (simp_all add: replay_inv_def)
  have ended: "phase_of st p = Some Finished
      \<and> (\<exists>tp e. task_of st p = Some tp \<and> actual_end tp = Some e \<and> e \<le> now st)"
    if "p \<in> set (d # processed st)" for p
  proof (cases "p = d")
    case True
    with f dn show ?thesis by simp
  next
    case False
    with that have "p \<in> set (processed st)" by simp
    from processed_ended [OF k l this] show ?thesis by blast
  qed
  have woken: "wait_end S st' w (now st)"
    if w: "phase_of st w = Some AtWait" "d \<in> set (pred_events S w)"
      "\<forall>p \<in> set (pred_events S w). p \<in> set (d # processed st)" for w
  proof -
    from w(2) have ne: "resolved_preds S w \<noteq> []" by (auto simp: pred_events_resolved)
    have "preds_done S st w (now st)"
      unfolding preds_done_def using w(3) ended by (simp add: pred_events_resolved)
    moreover have "\<exists>p \<in> set (resolved_preds S w). \<exists>tp. task_of st p = Some tp \<and> actual_end tp = Some (now st)"
      using w(2) dn by (auto simp: pred_events_resolved)
    ultimately have "wait_end S st w (now st)" using ne by (simp add: wait_end_def)
    then show ?thesis by (simp add: wait_end_same [OF same])
  qed
  have "keys_ok S st'" using k by (simp add: keys_ok_def same)
  moreover have "times_ok st'"
    unfolding times_ok_def n' new(1) using tm new(2) by (auto simp: times_ok_def)
  moreover have "local_inv dp S st' None tid" for tid
    unfolding local_inv_def same p'
  proof (intro conjI allI impI)
    assume a: "Completion tid \<in> evs st' \<or> tid \<in> set (d # processed st)"
    have "Completion tid \<notin> ev ` set new" using new(2) by auto
    with a have "Completion tid \<in> evs st \<or> tid \<in> set (processed st) \<or> tid = d"
      unfolding ev' by auto
    with l [of tid] f show "phase_of st tid = Some Finished" by (auto simp: local_inv_def)
  next
    fix t ph assume a: "task_of st tid = Some t \<and> phase_of st tid = Some ph"
    with l [of tid] have p: "phase_inv dp S st (Some (Completion d)) tid t ph"
      by (simp add: local_inv_def)
    show "phase_inv dp S st' None tid t ph"
    proof (rule phase_inv_weaken [OF p same])
      show "now st \<le> now st'" by (simp add: n')
      show "\<forall>x \<in> set (queue st').
              ev x \<in> {ComputeTimeout tid, UplinkTimeout tid, Completion tid} \<longrightarrow> x \<in> set (queue st)"
        unfolding new(1) using new(2) by auto
      show "\<forall>x \<in> set (queue st'). ev x = AllOf tid \<longrightarrow>
              x \<in> set (queue st) \<or> (ph = AtWait \<and> wait_end S st' tid (fst x))"
      proof (intro ballI impI)
        fix x assume x: "x \<in> set (queue st')" "ev x = AllOf tid"
        show "x \<in> set (queue st) \<or> (ph = AtWait \<and> wait_end S st' tid (fst x))"
        proof (cases "x \<in> set (queue st)")
          case True
          then show ?thesis by simp
        next
          case False
          with x(1) have xn: "x \<in> set new" unfolding new(1) by simp
          with new(2) obtain w where w: "fst x = now st" "ev x = AllOf w"
            "phase_of st w = Some AtWait" "d \<in> set (pred_events S w)"
            "\<forall>p \<in> set (pred_events S w). p \<in> set (d # processed st)" by blast
          from w(2) x(2) have "w = tid" by simp
          with w woken [of tid] a show ?thesis by simp
        qed
      qed
      show "ph = AtStart \<longrightarrow> None \<noteq> Some (Initialize tid) \<longrightarrow> Initialize tid \<in> evs st'"
        using p by (auto simp: phase_inv_def ev')
    qed
  qed
  ultimately show ?thesis by (simp add: replay_inv_def st'_def)
qed

subsection \<open>One turn of the event loop\<close>

lemma replay_inv_drop_popped:
  assumes inv: "replay_inv dp S st (Some e)"
    and ns: "\<And>tid. e = Initialize tid \<Longrightarrow> phase_of st tid \<noteq> Some AtStart"
  shows "replay_inv dp S st None"
proof -
  have "local_inv dp S st None tid" for tid
  proof -
    from inv have l: "local_inv dp S st (Some e) tid" by (simp add: replay_inv_def)
    have "phase_inv dp S st None tid t ph"
      if a: "task_of st tid = Some t \<and> phase_of st tid = Some ph" for t ph
    proof -
      from l a have p: "phase_inv dp S st (Some e) tid t ph" by (simp add: local_inv_def)
      show ?thesis
      proof (rule phase_inv_weaken [OF p])
        show "ph = AtStart \<longrightarrow> None \<noteq> Some (Initialize tid) \<longrightarrow> Initialize tid \<in> evs st"
          using p a ns [of tid] by (auto simp: phase_inv_def)
      qed simp_all
    qed
    with l show ?thesis by (simp add: local_inv_def)
  qed
  with inv show ?thesis by (simp add: replay_inv_def)
qed

lemma resume_cases:
  assumes "resume dp S tid ph body st = Inr st'"
  obtains (run) me pr where "map_of (scheduled_tasks S) tid = Some me"
      "map_of (procs st) tid = Some pr" "p_phase pr = ph"
      "body me (map_of (task_definitions S) (get_base_task_id tid)) st = Inr st'"
    | (skip) "st' = st" "map_of (scheduled_tasks S) tid = None \<or> phase_of st tid \<noteq> Some ph"
proof (cases "map_of (scheduled_tasks S) tid")
  case None
  with assms have "st' = st" by (simp add: resume_def)
  with None skip show ?thesis by simp
next
  case me: (Some me)
  show ?thesis
  proof (cases "map_of (procs st) tid")
    case None
    with assms me have "st' = st" by (simp add: resume_def)
    moreover from None have "phase_of st tid \<noteq> Some ph" by (simp add: phase_of_def)
    ultimately show ?thesis using skip by simp
  next
    case (Some pr)
    show ?thesis
    proof (cases "p_phase pr = ph")
      case True
      with assms me Some show ?thesis by (intro run [of me pr]) (simp_all add: resume_def)
    next
      case False
      with assms me Some have "st' = st" by (simp add: resume_def)
      moreover from False Some have "phase_of st tid \<noteq> Some ph" by (simp add: phase_of_def)
      ultimately show ?thesis using skip by simp
    qed
  qed
qed

lemma step_inv:
  assumes inv: "replay_inv dp S st None"
    and p: "pop (queue st) = Some (en, q)"
    and s: "step dp S (ev en) (st\<lparr>now := fst en, queue := q\<rparr>) = Inr st'"
  shows "replay_inv dp S st' None"
proof -
  from pop_Some [OF p] have en: "en \<in> set (queue st)" and q: "q = remove1 en (queue st)"
    by simp_all
  define st1 where "st1 = st\<lparr>now := fst en, queue := q\<rparr>"
  have inv1: "replay_inv dp S st1 (Some (ev en))"
    unfolding st1_def q using replay_inv_pop [OF inv en pop_min [OF p]] .
  have same: "task_of st1 = task_of st" "phase_of st1 = phase_of st"
    "processed st1 = processed st" "now st1 = fst en" "procs st1 = procs st"
    by (simp_all add: st1_def task_of_def phase_of_def fun_eq_iff)
  from inv have k: "keys_ok S st" and tm: "times_ok st" and l: "\<And>tid. local_inv dp S st None tid"
    by (simp_all add: replay_inv_def)
  from inv1 have k1: "keys_ok S st1" and l1: "\<And>tid. local_inv dp S st1 (Some (ev en)) tid"
    by (simp_all add: replay_inv_def)
  from tm en have n: "now st \<le> now st1" by (simp add: times_ok_def same)
  from inv1 have n0: "0 \<le> now st1" by (simp add: replay_inv_def times_ok_def)
  note s1 = s [folded st1_def]
  have skipI: "replay_inv dp S st' None"
    if "st' = st1" "\<And>tid. ev en = Initialize tid \<Longrightarrow> phase_of st1 tid \<noteq> Some AtStart"
    using replay_inv_drop_popped [OF inv1] that by simp
  have touch: "replay_inv dp S st' None"
    if "touches tid st1 st' \<and> local_inv dp S st' None tid"
      "\<And>k. ev en = Initialize k \<Longrightarrow> k = tid" for tid
    using replay_inv_touches [OF _ inv1, of tid st'] that by simp
  show ?thesis
  proof (cases "ev en")
    case (Initialize tid)
    with s1 have r: "resume dp S tid AtStart (\<lambda>me td. start_process dp S tid me) st1 = Inr st'"
      by simp
    from r show ?thesis
    proof (cases rule: resume_cases)
      case (run me pr)
      from keys_ok_task [OF k1 run(1)] obtain t where t: "task_of st1 tid = Some t" .
      from tm en Initialize have z: "now st1 = 0" by (simp add: times_ok_def same)
      have pz: "phase_of st1 p = Some Finished
                \<and> (\<exists>tp. task_of st1 p = Some tp \<and> actual_end tp = Some 0)"
        if "p \<in> set (processed st1)" for p
      proof -
        from processed_ended [OF k1 l1 that] obtain tp e where
          "phase_of st1 p = Some Finished" "task_of st1 p = Some tp" "actual_end tp = Some e"
          "0 \<le> e" "e \<le> now st1" by blast
        with z show ?thesis by simp
      qed
      from start_process_inv [OF run(4) run(1,2,3) t l1 z pz] Initialize
      show ?thesis by (intro touch [of tid]) simp_all
    next
      case skip': skip
      with keys_ok_no_task [OF k1] have "phase_of st1 tid \<noteq> Some AtStart" by auto
      with skip'(1) Initialize show ?thesis by (intro skipI) simp_all
    qed
  next
    case (AllOf tid)
    with s1 have r: "resume dp S tid AtWait
       (\<lambda>me td s. case td of None \<Rightarrow> Inl NoTaskDefinition
                   | Some task_def \<Rightarrow> enter_transfer dp S tid me task_def s) st1 = Inr st'"
      by simp
    from r show ?thesis
    proof (cases rule: resume_cases)
      case (run me pr)
      from run(4) obtain td where et: "enter_transfer dp S tid me td st1 = Inr st'"
        by (cases "map_of (task_definitions S) (get_base_task_id tid)") simp_all
      from keys_ok_task [OF k1 run(1)] obtain t where t: "task_of st1 tid = Some t" .
      have ph: "phase_of st1 tid = Some AtWait" using run(2,3) by (simp add: phase_of_def)
      have nf: "p_phase pr \<noteq> Finished" using run(3) by simp
      have c: "Completion tid \<notin> evs st1" "tid \<notin> set (processed st1)"
        using local_inv_not_finished [OF l1 [of tid] ph] by simp_all
      from l1 [of tid] t ph have ct: "ComputeTimeout tid \<notin> evs st1" "UplinkTimeout tid \<notin> evs st1"
        by (auto simp: local_inv_def phase_inv_def)
      from l [of tid] t ph have "\<forall>x \<in> set (queue st). ev x = AllOf tid \<longrightarrow> wait_end S st tid (fst x)"
        by (simp add: local_inv_def phase_inv_def same)
      with en AllOf have "wait_end S st tid (fst en)" by simp
      then have we: "wait_end S st1 tid (now st1)"
        by (simp add: wait_end_same [OF same(1,2)] same)
      from enter_transfer_inv [OF et run(1,2) nf t c ct we] AllOf
      show ?thesis by (intro touch [of tid]) simp_all
    next
      case skip
      with AllOf show ?thesis by (intro skipI) simp_all
    qed
  next
    case (UplinkTimeout tid)
    with s1 have r: "resume dp S tid AtUplink
       (\<lambda>me td s. case td of None \<Rightarrow> Inl NoTaskDefinition
                   | Some task_def \<Rightarrow> enter_compute S tid me task_def s) st1 = Inr st'"
      by simp
    from r show ?thesis
    proof (cases rule: resume_cases)
      case (run me pr)
      from run(4) obtain td where ec: "enter_compute S tid me td st1 = Inr st'"
        by (cases "map_of (task_definitions S) (get_base_task_id tid)") simp_all
      from keys_ok_task [OF k1 run(1)] obtain t where t: "task_of st1 tid = Some t" .
      have ph: "phase_of st1 tid = Some AtUplink" using run(2,3) by (simp add: phase_of_def)
      have nf: "p_phase pr \<noteq> Finished" using run(3) by simp
      have c: "Completion tid \<notin> evs st1" "tid \<notin> set (processed st1)"
        using local_inv_not_finished [OF l1 [of tid] ph] by simp_all
      from l1 [of tid] t ph have ct: "ComputeTimeout tid \<notin> evs st1"
        and u: "uplink_ok dp S tid t"
        by (auto simp: local_inv_def phase_inv_def)
      from l [of tid] t ph obtain w where w: "wait_end S st tid w"
        "\<forall>x \<in> set (queue st). ev x = UplinkTimeout tid \<longrightarrow> fst x = w + uplink_time t"
        by (auto simp: local_inv_def phase_inv_def same)
      from w(2) en UplinkTimeout have "now st1 - uplink_time t = w" by (simp add: same)
      with w(1) have we: "wait_end S st1 tid (now st1 - uplink_time t)"
        by (simp add: wait_end_same [OF same(1,2)])
      from enter_compute_inv [OF ec run(2) nf t c ct we u] UplinkTimeout
      show ?thesis by (intro touch [of tid]) simp_all
    next
      case skip
      with UplinkTimeout show ?thesis by (intro skipI) simp_all
    qed
  next
    case (ComputeTimeout tid)
    with s1 have r: "resume dp S tid AtCompute (\<lambda>me td s. Inr (finish_task tid s)) st1 = Inr st'"
      by simp
    from r show ?thesis
    proof (cases rule: resume_cases)
      case (run me pr)
      from run(4) have st': "st' = finish_task tid st1" by simp
      from keys_ok_task [OF k1 run(1)] obtain t where t: "task_of st1 tid = Some t" .
      have ph: "phase_of st tid = Some AtCompute" using run(2,3) by (simp add: phase_of_def same)
      from l [of tid] t ph obtain s0 where s0: "actual_start t = Some s0"
        "\<forall>x \<in> set (queue st). ev x = ComputeTimeout tid \<longrightarrow> fst x = s0 + compute_time t"
        by (auto simp: local_inv_def phase_inv_def same)
      from s0(2) en ComputeTimeout have "now st1 = s0 + compute_time t" by (simp add: same)
      from finish_task_inv [OF run(2,3) t l1 s0(1) this n0]
      have "touches tid st1 st' \<and> local_inv dp S st' None tid" by (simp add: st')
      with ComputeTimeout show ?thesis by (intro touch [of tid]) simp_all
    next
      case skip
      with ComputeTimeout show ?thesis by (intro skipI) simp_all
    qed
  next
    case (Completion tid)
    with s1 have st': "st' = process_completion S tid st1" by simp
    from evs_I [OF en] Completion l [of tid] have f: "phase_of st tid = Some Finished"
      by (simp add: local_inv_def)
    from keys_ok_phase_task [OF k f] obtain td where td: "task_of st tid = Some td" .
    with l [of tid] f obtain e where e: "actual_end td = Some e"
      "\<forall>x \<in> set (queue st). ev x = Completion tid \<longrightarrow> fst x = e"
      by (auto simp: local_inv_def phase_inv_def)
    from e(2) en Completion have "e = now st1" by (simp add: same)
    with e(1) td f have "phase_of st1 tid = Some Finished" "task_of st1 tid = Some td"
      "actual_end td = Some (now st1)" by (simp_all add: same)
    from process_completion_inv [OF _ this, of dp] inv1 Completion
    show ?thesis by (simp add: st')
  next
    case (ProcessExit tid)
    with s1 have "st' = st1" by simp
    with ProcessExit show ?thesis by (intro skipI) simp_all
  qed
qed


subsection \<open>The invariant holds from the start to the end of the run\<close>

lemma start_all_fields:
  "now (fold (\<lambda>(k, t). schedule (Initialize k) URGENT 0) xs st) = now st
   \<and> tasks (fold (\<lambda>(k, t). schedule (Initialize k) URGENT 0) xs st) = tasks st
   \<and> procs (fold (\<lambda>(k, t). schedule (Initialize k) URGENT 0) xs st) = procs st
   \<and> processed (fold (\<lambda>(k, t). schedule (Initialize k) URGENT 0) xs st) = processed st"
  by (induction xs arbitrary: st) (simp_all add: split_def)

lemma start_all_evs:
  "evs (fold (\<lambda>(k, t). schedule (Initialize k) URGENT 0) xs st) = evs st \<union> Initialize ` fst ` set xs"
  by (induction xs arbitrary: st) (auto simp: split_def)

lemma start_all_queue:
  "en \<in> set (queue (fold (\<lambda>(k, t). schedule (Initialize k) URGENT 0) xs st)) \<Longrightarrow>
   en \<in> set (queue st) \<or> fst en = now st"
proof (induction xs arbitrary: st)
  case Nil
  then show ?case by simp
next
  case (Cons x xs)
  from Cons.prems have
    "en \<in> set (queue (fold (\<lambda>(k, t). schedule (Initialize k) URGENT 0) xs
        (schedule (Initialize (fst x)) URGENT 0 st)))"
    by (simp add: split_def)
  from Cons.IH [OF this] show ?case by auto
qed

lemma replay_inv_init: "replay_inv dp S (start_all S (init_sim S)) None"
proof -
  define st where "st = start_all S (init_sim S)"
  have f: "now st = 0" "tasks st = scheduled_tasks S" "processed st = []"
    "procs st = map (\<lambda>(k, t). (k, \<lparr>p_phase = AtStart, p_triggered = False\<rparr>)) (scheduled_tasks S)"
    using start_all_fields [of "scheduled_tasks S" "init_sim S"]
    by (simp_all add: st_def start_all_def init_sim_def)
  have e: "evs st = Initialize ` fst ` set (scheduled_tasks S)"
    using start_all_evs [of "scheduled_tasks S" "init_sim S"]
    by (simp add: st_def start_all_def) (simp add: init_sim_def evs_def)
  have q: "fst en = 0" if "en \<in> set (queue st)" for en
    using start_all_queue [of en "scheduled_tasks S" "init_sim S"] that
    by (simp add: st_def start_all_def) (simp add: init_sim_def)
  have t: "task_of st tid = map_of (scheduled_tasks S) tid" for tid
    by (simp add: task_of_def f)
  have "map_of (map (\<lambda>(k, t). (k, \<lparr>p_phase = AtStart, p_triggered = False\<rparr>)) xs) tid
      = map_option (\<lambda>t. \<lparr>p_phase = AtStart, p_triggered = False\<rparr>) (map_of xs tid)"
    for xs :: "(string \<times> ScheduledTask) list" and tid
    by (induction xs) auto
  then have p: "phase_of st tid = map_option (\<lambda>t. AtStart) (map_of (scheduled_tasks S) tid)" for tid
    by (simp add: phase_of_def f option.map_comp comp_def)
  have "keys_ok S st" by (simp add: keys_ok_def t p in_dict_def)
  moreover have "times_ok st" using q by (simp add: times_ok_def f)
  moreover have "local_inv dp S st None tid" for tid
    unfolding local_inv_def t p f
  proof (intro conjI allI impI)
    fix t ph
    assume a: "map_of (scheduled_tasks S) tid = Some t
        \<and> map_option (\<lambda>t. AtStart) (map_of (scheduled_tasks S) tid) = Some ph"
    then have "ph = AtStart" by auto
    moreover from a have "(tid, t) \<in> set (scheduled_tasks S)" by (auto dest: map_of_SomeD)
    then have "Initialize tid \<in> evs st" unfolding e by force
    moreover have "ComputeTimeout tid \<notin> evs st" "UplinkTimeout tid \<notin> evs st"
      "AllOf tid \<notin> evs st" unfolding e by auto
    ultimately show "phase_inv dp S st None tid t ph" by (simp add: phase_inv_def)
  qed (auto simp: e)
  ultimately show ?thesis by (simp add: replay_inv_def st_def)
qed

lemma pop_None: "pop q = None \<longleftrightarrow> q = []"
  by (cases q) (simp_all add: pop_def Let_def)

lemma run_loop_inv:
  assumes "run_loop dp S st = Inr st'" "replay_inv dp S st None"
  shows "replay_inv dp S st' None \<and> queue st' = []"
  using assms
proof (induction dp S st rule: run_loop.induct)
  case (1 dp S st)
  show ?case
  proof (cases "pop (queue st)")
    case None
    with "1.prems"(1) have "st' = st" by (subst (asm) run_loop.simps) simp
    with None "1.prems"(2) show ?thesis by (simp add: pop_None)
  next
    case (Some x)
    obtain en q where x: "x = (en, q)" by (cases x)
    show ?thesis
    proof (cases "step dp S (snd (snd (snd en))) (st\<lparr>now := fst en, queue := q\<rparr>)")
      case (Inl e)
      with Some x "1.prems"(1) show ?thesis by (subst (asm) run_loop.simps) simp
    next
      case (Inr st1)
      with Some x "1.prems"(1) have r: "run_loop dp S st1 = Inr st'"
        by (subst (asm) run_loop.simps) simp
      from Inr have "step dp S (ev en) (st\<lparr>now := fst en, queue := q\<rparr>) = Inr st1"
        by (simp add: ev_def)
      from step_inv [OF "1.prems"(2) _ this] Some x have "replay_inv dp S st1 None" by simp
      from "1.IH" [OF Some x [symmetric] Inr r this] show ?thesis .
    qed
  qed
qed

lemma run_inv:
  assumes "run dp S = Inr (m, st)"
  shows "replay_inv dp S st None" and "queue st = []"
proof -
  from assms have "run_loop dp S (start_all S (init_sim S)) = Inr st"
    by (auto simp: run_def split: sum.splits if_splits)
  from run_loop_inv [OF this replay_inv_init] show "replay_inv dp S st None" and "queue st = []"
    by simp_all
qed


section \<open>What the final state says about the tasks\<close>



lemma finished_task_times:
  assumes "run dp S = Inr (m, st)"
    and "phase_of st tid = Some Finished"
    and "task_of st tid = Some t"
  shows "\<exists>s. actual_start t = Some s \<and> actual_end t = Some (s + compute_time t)
           \<and> wait_end S st tid (s - uplink_time t) \<and> 0 \<le> uplink_time t"
proof -
  from run_inv(1) [OF assms(1)] have "local_inv dp S st None tid" by (simp add: replay_inv_def)
  with assms(2,3) obtain s where s: "actual_start t = Some s"
    "actual_end t = Some (s + compute_time t)" "wait_end S st tid (s - uplink_time t)"
    "uplink_ok dp S tid t"
    by (auto simp: local_inv_def phase_inv_def)
  from uplink_ok_nonneg [OF s(4)] s(1,2,3) show ?thesis by simp
qed


text \<open>
  C10. In the final state of a run that returns, every scheduled task without resolved
  predecessors has \<open>uplink_time\<close> 0 and the recorded \<open>actual_start\<close> 0, the start of
  the simulation, whatever its \<open>scheduled_start\<close> is; and the recorded \<open>actual_start\<close>
  of a finished task with resolved predecessors is the recorded \<open>actual_end\<close> of one
  of them plus the task's \<open>uplink_time\<close>. The replay never waits for the predicted
  start.
\<close>

theorem start_without_predecessors:
  assumes "run dp S = Inr (m, st)"
  shows "(in_dict tid (scheduled_tasks S) \<and> resolved_preds S tid = [] \<longrightarrow>
            (\<exists>t. task_of st tid = Some t \<and> actual_start t = Some 0 \<and> uplink_time t = 0))
         \<and> (\<forall>t. phase_of st tid = Some Finished \<and> task_of st tid = Some t
                 \<and> resolved_preds S tid \<noteq> [] \<longrightarrow>
                 (\<exists>p \<in> set (resolved_preds S tid). \<exists>tp w.
                     task_of st p = Some tp \<and> actual_end tp = Some w
                     \<and> actual_start t = Some (w + uplink_time t)))"
proof (intro conjI allI impI)
  assume a: "in_dict tid (scheduled_tasks S) \<and> resolved_preds S tid = []"
  note inv = run_inv [OF assms(1)]
  from inv(1) have k: "keys_ok S st" and l: "local_inv dp S st None tid"
    by (simp_all add: replay_inv_def)
  from k a obtain t ph where t: "task_of st tid = Some t" and ph: "phase_of st tid = Some ph"
    unfolding keys_ok_def by (metis option.exhaust)
  from l t ph have p: "phase_inv dp S st None tid t ph" by (simp add: local_inv_def)
  have e: "evs st = {}" using inv(2) by (simp add: evs_def)
  from p e a have c: "ph = AtCompute \<or> ph = Finished"
    by (cases ph) (simp_all add: phase_inv_def)
  with p obtain s where s: "actual_start t = Some s" "wait_end S st tid (s - uplink_time t)"
    and u: "uplink_ok dp S tid t"
    by (auto simp: phase_inv_def)
  from u a have z: "uplink_time t = 0"
    by (auto simp: uplink_ok_def compute_uplink_Nil)
  with s a have "actual_start t = Some 0" by (simp add: wait_end_def)
  with t z show "\<exists>t. task_of st tid = Some t \<and> actual_start t = Some 0 \<and> uplink_time t = 0"
    by simp
next
  fix t
  assume a: "phase_of st tid = Some Finished \<and> task_of st tid = Some t
             \<and> resolved_preds S tid \<noteq> []"
  then have f: "phase_of st tid = Some Finished" and t: "task_of st tid = Some t" by simp_all
  from finished_task_times [OF assms f t] obtain s where s: "actual_start t = Some s"
    "wait_end S st tid (s - uplink_time t)" by blast
  from s(2) a obtain p tp where "p \<in> set (resolved_preds S tid)" "task_of st p = Some tp"
    "actual_end tp = Some (s - uplink_time t)"
    by (auto simp: wait_end_def)
  with s(1) show "\<exists>p \<in> set (resolved_preds S tid). \<exists>tp w.
      task_of st p = Some tp \<and> actual_end tp = Some w \<and> actual_start t = Some (w + uplink_time t)"
    by (intro bexI [of _ p] exI [of _ tp] exI [of _ "s - uplink_time t"]) simp_all
qed






lemma late_run:
  "outcome (run direct_path late_scheduler) =
     Inr (16, [(''T0'', Some 0, Some 10, 0, 10), (''T1'', Some 11, Some 16, 1, 5)])"
  by code_simp

lemma late_run_final: "run direct_path late_scheduler = Inr (16, late_final)"
proof -
  from late_run obtain st where r: "run direct_path late_scheduler = Inr (16, st)"
    by (cases "run direct_path late_scheduler") (auto simp: outcome_def)
  then show ?thesis by (simp add: late_final_def)
qed

lemma late_static:
  "resolved_preds late_scheduler ''T0'' = []"
  "in_dict ''T0'' (scheduled_tasks late_scheduler)"
  "map_option scheduled_start (map_of (scheduled_tasks late_scheduler) ''T0'') = Some 7"
  "resolved_preds late_scheduler ''T1'' = [''T0'']"
  by code_simp+

lemma late_final_tasks:
  "phase_of late_final ''T1'' = Some Finished"
  "map_option (\<lambda>t. (actual_end t, uplink_time t)) (task_of late_final ''T0'') = Some (Some 10, 0)"
  "map_option uplink_time (task_of late_final ''T1'') = Some 1"
  by code_simp+

theorem start_without_predecessors_witness:
  "run direct_path late_scheduler = Inr (16, late_final)
   \<and> in_dict ''T0'' (scheduled_tasks late_scheduler)
   \<and> resolved_preds late_scheduler ''T0'' = []
   \<and> map_option scheduled_start (map_of (scheduled_tasks late_scheduler) ''T0'') = Some 7
   \<and> map_option (\<lambda>t. (actual_start t, uplink_time t)) (task_of late_final ''T0'') = Some (Some 0, 0)
   \<and> phase_of late_final ''T1'' = Some Finished
   \<and> resolved_preds late_scheduler ''T1'' = [''T0'']
   \<and> map_option actual_start (task_of late_final ''T1'') = Some (Some (10 + 1))"
proof -
  note r = start_without_predecessors [OF late_run_final]
  from r [of "''T0''"] late_static(1,2)
  obtain t where a: "task_of late_final ''T0'' = Some t" "actual_start t = Some 0" "uplink_time t = 0"
    by blast
  from late_final_tasks(3) obtain t1 where t1: "task_of late_final ''T1'' = Some t1"
    "uplink_time t1 = 1" by auto
  from late_final_tasks(2) a(1) have e0: "actual_end t = Some 10" by simp
  from r [of "''T1''"] late_final_tasks(1) t1(1) late_static(4)
  obtain p tp w where "p \<in> set (resolved_preds late_scheduler ''T1'')"
    "task_of late_final p = Some tp" "actual_end tp = Some w"
    "actual_start t1 = Some (w + uplink_time t1)"
    by auto
  with a(1) e0 t1(2) have "actual_start t1 = Some (10 + 1)" by (simp add: late_static(4))
  with a t1 late_run_final late_static late_final_tasks(1) show ?thesis by simp
qed

section \<open>The makespan\<close>

text \<open>
  C2, as the code has it. When \<open>run()\<close> returns, the event loop has ended in a state
  without pending entries and the value returned is the greatest \<open>actual_end\<close> among
  the tasks that recorded one: some task ended at that time and none that recorded an
  end ended later. Tasks without a recorded end are left out. \<open>run()\<close> fails only with
  the exception of a process, or, when the loop ends and no task at all has recorded an
  end, with the exception of \<open>max\<close> on an empty sequence.
\<close>

theorem run_makespan:
  "(\<forall>m st. run dp S = Inr (m, st) \<longrightarrow>
      run_loop dp S (start_all S (init_sim S)) = Inr st \<and> queue st = []
      \<and> (\<exists>k t. (k, t) \<in> set (tasks st) \<and> actual_end t = Some m)
      \<and> (\<forall>k t e. (k, t) \<in> set (tasks st) \<and> actual_end t = Some e \<longrightarrow> e \<le> m))
   \<and> (\<forall>st. run_loop dp S (start_all S (init_sim S)) = Inr st \<longrightarrow>
         (if \<forall>(k, t) \<in> set (tasks st). actual_end t = None then run dp S = Inl EmptySequence
          else \<exists>m. run dp S = Inr (m, st)))
   \<and> (\<forall>e. run_loop dp S (start_all S (init_sim S)) = Inl e \<longrightarrow> run dp S = Inl e)"
proof (intro conjI allI impI)
  fix m st assume r: "run dp S = Inr (m, st)"
  then have l: "run_loop dp S (start_all S (init_sim S)) = Inr st"
    and ne: "recorded_ends st \<noteq> []" and m: "m = max_list (recorded_ends st)"
    by (auto simp: run_def split: sum.splits if_splits)
  from ne m have M: "m = Max (set (recorded_ends st))" by (simp add: max_list_Max)
  show "run_loop dp S (start_all S (init_sim S)) = Inr st" by (rule l)
  show "queue st = []" using r by (rule run_inv(2))
  have "m \<in> set (recorded_ends st)" using M ne by (simp add: Max_in)
  then show "\<exists>k t. (k, t) \<in> set (tasks st) \<and> actual_end t = Some m"
    by (simp add: set_recorded_ends)
  fix k t e assume "(k, t) \<in> set (tasks st) \<and> actual_end t = Some e"
  then have "e \<in> set (recorded_ends st)" by (auto simp: set_recorded_ends)
  then show "e \<le> m" using M by simp
next
  fix st assume l: "run_loop dp S (start_all S (init_sim S)) = Inr st"
  have "recorded_ends st = [] \<longleftrightarrow> (\<forall>(k, t) \<in> set (tasks st). actual_end t = None)"
    using set_recorded_ends [of st] by (auto simp: set_empty [symmetric] simp del: set_empty)
  with l show "if \<forall>(k, t) \<in> set (tasks st). actual_end t = None then run dp S = Inl EmptySequence
          else \<exists>m. run dp S = Inr (m, st)"
    by (simp add: run_def)
next
  fix e assume "run_loop dp S (start_all S (init_sim S)) = Inl e"
  then show "run dp S = Inl e" by (simp add: run_def)
qed


theorem run_makespan_witness:
  "run direct_path cyc_scheduler = Inr (2, snd (projr (run direct_path cyc_scheduler)))
   \<and> run_loop direct_path cyc_scheduler (start_all cyc_scheduler (init_sim cyc_scheduler))
        = Inr (snd (projr (run direct_path cyc_scheduler)))
   \<and> (\<exists>k t. (k, t) \<in> set (tasks (snd (projr (run direct_path cyc_scheduler))))
              \<and> actual_end t = Some 2)"
proof -
  from cyc_run obtain st where r: "run direct_path cyc_scheduler = Inr (2, st)"
    by (cases "run direct_path cyc_scheduler") (auto simp: outcome_def)
  then have s: "snd (projr (run direct_path cyc_scheduler)) = st" by simp
  from run_makespan [of direct_path cyc_scheduler] r
  have "run_loop direct_path cyc_scheduler (start_all cyc_scheduler (init_sim cyc_scheduler)) = Inr st
      \<and> (\<exists>k t. (k, t) \<in> set (tasks st) \<and> actual_end t = Some 2)"
    by blast
  with r s show ?thesis by simp
qed


end
